theory Spec2Isabelle
  imports Complex_Main "HOL-Library.Sublist"
begin

section \<open>Values shared by the gateway and the task manager\<close>

text \<open>
  The Python code passes events, channel records and message payloads around as
  dictionaries of JSON-like values. A dictionary is an association list read with
  \<open>map_of\<close> (Python's \<open>d.get(k)\<close>); the first binding of a key is the one that counts.
\<close>

datatype json =
    JNull
  | JBool bool
  | JNum int
  | JStr string
  | JList "json list"
  | JDict "(string \<times> json) list"

type_synonym pydict = "(string \<times> json) list"

definition dget :: "pydict \<Rightarrow> string \<Rightarrow> json option" where
  "dget d k = map_of d k"

text \<open>Python truthiness of a value (\<open>if x:\<close>, \<open>x or y\<close>).\<close>

fun truthy :: "json \<Rightarrow> bool" where
  "truthy JNull = False"
| "truthy (JBool b) = b"
| "truthy (JNum n) = (n \<noteq> 0)"
| "truthy (JStr s) = (s \<noteq> [])"
| "truthy (JList xs) = (xs \<noteq> [])"
| "truthy (JDict kvs) = (kvs \<noteq> [])"

datatype exn =
    ValueError string
  | TypeError
  | AttributeError
  | StoreError string

section \<open>Rate limiter (\<open>channels/gateway.py\<close>, \<open>_TokenBucketRateLimiter\<close>)\<close>

text \<open>
  \<open>self._windows\<close> is a \<open>defaultdict(list)\<close>: reading a missing sender gives (and stores)
  the empty list. Timestamps are the values of \<open>time.time()\<close>, taken here as real numbers;
  the clock value read by a call is the argument \<open>now\<close>.
\<close>

type_synonym windows = "string \<rightharpoonup> real list"

definition is_allowed :: "real \<Rightarrow> windows \<Rightarrow> string \<Rightarrow> int \<Rightarrow> bool \<times> windows" where
  "is_allowed now ws sender_id max_per_minute =
     (if max_per_minute \<le> 0 then (True, ws)
      else
        let window = (case ws sender_id of None \<Rightarrow> [] | Some w \<Rightarrow> w);
            cutoff = now - 60;
            window = filter (\<lambda>ts. ts > cutoff) window
        in if int (length window) \<ge> max_per_minute
           then (False, ws(sender_id \<mapsto> window))
           else (True, ws(sender_id \<mapsto> window @ [now])))"

definition clear :: "windows \<Rightarrow> string option \<Rightarrow> windows" where
  "clear ws sender_id =
     (case sender_id of
        None \<Rightarrow> Map.empty
      | Some s \<Rightarrow> (if s \<noteq> [] then ws(s := None) else Map.empty))"

text \<open>A sender calling \<open>is_allowed\<close> at each of the given clock values, in order.\<close>

fun calls :: "windows \<Rightarrow> string \<Rightarrow> int \<Rightarrow> real list \<Rightarrow> bool list \<times> windows" where
  "calls ws s n [] = ([], ws)"
| "calls ws s n (t # ts) =
     (case is_allowed t ws s n of
        (ok, ws') \<Rightarrow> (case calls ws' s n ts of (oks, ws'') \<Rightarrow> (ok # oks, ws'')))"

text \<open>
  The limiter as the specification words it, with no eviction: the record is the list of
  the clock values of all calls admitted so far, a rejected call adds nothing to it, and
  a call is admitted exactly when fewer than the limit of the recorded values are less
  than 60 seconds old.
\<close>

fun sliding_window :: "real list \<Rightarrow> int \<Rightarrow> real list \<Rightarrow> bool list" where
  "sliding_window admitted n [] = []"
| "sliding_window admitted n (t # ts) =
     (if int (length (filter (\<lambda>x. t - 60 < x) admitted)) < n
      then True # sliding_window (admitted @ [t]) n ts
      else False # sliding_window admitted n ts)"

section \<open>Task manager state (\<open>core/task_manager.py\<close>, \<open>TaskManager\<close>)\<close>

type_synonym event = pydict

text \<open>
  An \<open>asyncio.Queue\<close> is an object with identity: subscriber lists hold references to
  queues and \<open>list.remove\<close> compares them by identity. A queue is therefore an address
  (a number) and its contents live in the store \<open>queues\<close>.
\<close>

type_synonym qref = nat

record run_args =
  ra_task_id :: string
  ra_agent_id :: string
  ra_message :: "string option"
  ra_content :: "pydict list option"
  ra_enable_skills :: bool
  ra_enable_mcp :: bool
  ra_add_dirs :: "string list option"

record task_manager =
  running_tasks :: "string \<rightharpoonup> run_args"
  event_buffers :: "string \<rightharpoonup> event list"
  subscribers :: "string \<rightharpoonup> qref list"
  message_queues :: "string \<rightharpoonup> qref"
  queues :: "qref \<Rightarrow> pydict list"

definition max_buffer_size :: nat where
  "max_buffer_size = 100"

definition buffer_retention_seconds :: nat where
  "buffer_retention_seconds = 300"

definition new_task_manager :: task_manager where
  "new_task_manager =
     \<lparr> running_tasks = Map.empty, event_buffers = Map.empty, subscribers = Map.empty,
       message_queues = Map.empty, queues = (\<lambda>_. []) \<rparr>"

text \<open>\<open>queue.put(event)\<close> on an unbounded queue appends and never suspends.\<close>

definition queue_put :: "event \<Rightarrow> qref \<Rightarrow> (qref \<Rightarrow> pydict list) \<Rightarrow> (qref \<Rightarrow> pydict list)" where
  "queue_put ev q h = h(q := h q @ [ev])"

definition emit_event :: "task_manager \<Rightarrow> string \<Rightarrow> event \<Rightarrow> task_manager" where
  "emit_event tm task_id ev =
     (let tm1 =
        (case event_buffers tm task_id of
           None \<Rightarrow> tm
         | Some buf \<Rightarrow>
             let buf1 = buf @ [ev];
                 buf2 = (if length buf1 > max_buffer_size then tl buf1 else buf1)
             in tm\<lparr>event_buffers := (event_buffers tm)(task_id \<mapsto> buf2)\<rparr>)
      in case subscribers tm1 task_id of
           None \<Rightarrow> tm1
         | Some qs \<Rightarrow> tm1\<lparr>queues := fold (queue_put ev) qs (queues tm1)\<rparr>)"

text \<open>A sequence of emissions, each for its own task id.\<close>

definition emit_events :: "task_manager \<Rightarrow> (string \<times> event) list \<Rightarrow> task_manager" where
  "emit_events tm evs = fold (\<lambda>(tid, ev) t. emit_event t tid ev) evs tm"

definition events_for :: "string \<Rightarrow> (string \<times> event) list \<Rightarrow> event list" where
  "events_for tid evs = map snd (filter (\<lambda>p. fst p = tid) evs)"

text \<open>The most recent \<open>n\<close> elements of a list.\<close>

definition last_n :: "nat \<Rightarrow> 'a list \<Rightarrow> 'a list" where
  "last_n n xs = drop (length xs - n) xs"

section \<open>Access control (\<open>channels/gateway.py\<close>, \<open>ChannelGateway._check_access\<close>)\<close>

text \<open>
  \<open>sender_id in container\<close> for a string \<open>sender_id\<close>: membership in a list, key
  membership in a dictionary, substring test in a string; any other right-hand side
  raises \<open>TypeError\<close>.
\<close>

fun py_in :: "string \<Rightarrow> json \<Rightarrow> exn + bool" where
  "py_in s (JList xs) = Inr (JStr s \<in> set xs)"
| "py_in s (JDict kvs) = Inr (s \<in> fst ` set kvs)"
| "py_in s (JStr t) = Inr (sublist s t)"
| "py_in s JNull = Inl TypeError"
| "py_in s (JBool b) = Inl TypeError"
| "py_in s (JNum n) = Inl TypeError"

text \<open>
  \<open>json.loads\<close> belongs to the Python library; it is a parameter of the model, with
  \<open>None\<close> standing for \<open>JSONDecodeError\<close>. The sender lists of a channel record are
  parsed only when they arrive as a string.
\<close>

definition parse_if_str :: "(string \<Rightarrow> json option) \<Rightarrow> json \<Rightarrow> json" where
  "parse_if_str json_loads v =
     (case v of
        JStr s \<Rightarrow> (case json_loads s of None \<Rightarrow> JList [] | Some parsed \<Rightarrow> parsed)
      | _ \<Rightarrow> v)"

definition check_access :: "(string \<Rightarrow> json option) \<Rightarrow> pydict \<Rightarrow> string \<Rightarrow> exn + bool" where
  "check_access json_loads channel_config sender_id =
     (let access_mode =
            (case dget channel_config ''access_mode'' of None \<Rightarrow> JStr ''allowlist'' | Some m \<Rightarrow> m)
      in if access_mode = JStr ''open'' then Inr True
         else if access_mode = JStr ''allowlist'' then
           (let allowed =
                  (case dget channel_config ''allowed_senders'' of None \<Rightarrow> JList [] | Some a \<Rightarrow> a);
                allowed = parse_if_str json_loads allowed
            in py_in sender_id allowed)
         else if access_mode = JStr ''blocklist'' then
           (let blocked =
                  (case dget channel_config ''blocked_senders'' of None \<Rightarrow> JList [] | Some b \<Rightarrow> b);
                blocked = parse_if_str json_loads blocked
            in (case py_in sender_id blocked of Inl e \<Rightarrow> Inl e | Inr b \<Rightarrow> Inr (\<not> b)))
         else Inr False)"

section \<open>Persisted store\<close>

text \<open>
  Writing into a dictionary: \<open>d[k] = v\<close> and \<open>{**d, **u}\<close> (\<open>dict.update\<close>).
\<close>

definition dset :: "pydict \<Rightarrow> string \<Rightarrow> json \<Rightarrow> pydict" where
  "dset d k v =
     (if k \<in> fst ` set d then map (\<lambda>(k', v'). if k' = k then (k', v) else (k', v')) d
      else d @ [(k, v)])"

definition dmerge :: "pydict \<Rightarrow> pydict \<Rightarrow> pydict" where
  "dmerge d u = fold (\<lambda>(k, v) acc. dset acc k v) u d"

definition opt_str :: "string option \<Rightarrow> json" where
  "opt_str s = (case s of None \<Rightarrow> JNull | Some x \<Rightarrow> JStr x)"

record channel_session =
  cs_id :: string
  cs_channel_id :: string
  cs_external_chat_id :: string
  cs_external_sender_id :: string
  cs_external_thread_id :: "string option"
  cs_session_id :: json
  cs_agent_id :: json
  cs_sender_display_name :: "string option"
  cs_last_message_at :: string
  cs_message_count :: int

text \<open>A partial update of a channel session, as the dictionaries passed to \<open>update\<close>.\<close>

record cs_updates =
  up_session_id :: "json option"
  up_last_message_at :: "string option"
  up_message_count :: "int option"

definition apply_cs_updates :: "cs_updates \<Rightarrow> channel_session \<Rightarrow> channel_session" where
  "apply_cs_updates u r =
     (let r1 = (case up_session_id u of None \<Rightarrow> r | Some s \<Rightarrow> r\<lparr>cs_session_id := s\<rparr>);
          r2 = (case up_last_message_at u of None \<Rightarrow> r1 | Some t \<Rightarrow> r1\<lparr>cs_last_message_at := t\<rparr>)
      in (case up_message_count u of None \<Rightarrow> r2 | Some c \<Rightarrow> r2\<lparr>cs_message_count := c\<rparr>))"

record task =
  tk_id :: string
  tk_agent_id :: string
  tk_session_id :: "json option"
  tk_status :: string
  tk_title :: json
  tk_model :: json
  tk_created_at :: string
  tk_started_at :: "string option"
  tk_completed_at :: "string option"
  tk_error :: json
  tk_work_dir :: "string option"

record database =
  db_channels :: "string \<rightharpoonup> pydict"
  db_agents :: "string \<rightharpoonup> pydict"
  db_tasks :: "string \<rightharpoonup> task"
  db_channel_sessions :: "channel_session list"
  db_channel_messages :: "pydict list"
  db_sessions :: "(json \<times> json \<times> string) list"

text \<open>
  Modelled from the spec: the record store \<open>database/sqlite.py\<close> (tables \<open>channels\<close>,
  \<open>channel_sessions\<close>, \<open>channel_messages\<close>, \<open>agents\<close>, \<open>tasks\<close>) is not among the
  sources. Section 6 of the specification: record-oriented get/put/update per entity,
  \<open>put\<close> returns the stored record, \<open>update\<close> returns the merged record or none if the
  record is missing. \<open>channels_update\<close> merges the given fields into an existing record.
\<close>

definition channels_update :: "database \<Rightarrow> string \<Rightarrow> pydict \<Rightarrow> database" where
  "channels_update db cid u =
     (case db_channels db cid of
        None \<Rightarrow> db
      | Some r \<Rightarrow> db\<lparr>db_channels := (db_channels db)(cid \<mapsto> dmerge r u)\<rparr>)"

text \<open>
  Modelled from the spec: \<open>db.channel_sessions.find_by_external\<close> (store code not among
  the sources). Section 4.6: lookup of the existing ChannelSession by
  \<open>(channel_id, external_chat_id, external_thread_id)\<close>.
\<close>

definition cs_find_by_external ::
  "channel_session list \<Rightarrow> string \<Rightarrow> string \<Rightarrow> string option \<Rightarrow> channel_session option" where
  "cs_find_by_external rows cid chat thread =
     find (\<lambda>r. cs_channel_id r = cid \<and> cs_external_chat_id r = chat \<and> cs_external_thread_id r = thread) rows"

text \<open>
  Modelled from the spec: \<open>db.channel_sessions.get\<close>, \<open>put\<close>, \<open>update\<close> and
  \<open>count_by_channel\<close> (store code not among the sources), as the record operations of
  Section 6, with the row's \<open>id\<close> as its key.
\<close>

definition cs_get :: "channel_session list \<Rightarrow> string \<Rightarrow> channel_session option" where
  "cs_get rows i = find (\<lambda>r. cs_id r = i) rows"

definition cs_put :: "channel_session list \<Rightarrow> channel_session \<Rightarrow> channel_session list" where
  "cs_put rows row =
     (if cs_id row \<in> cs_id ` set rows
      then map (\<lambda>r. if cs_id r = cs_id row then row else r) rows
      else rows @ [row])"

definition cs_update :: "channel_session list \<Rightarrow> string \<Rightarrow> cs_updates \<Rightarrow> channel_session list" where
  "cs_update rows i u = map (\<lambda>r. if cs_id r = i then apply_cs_updates u r else r) rows"

definition cs_count_by_channel :: "channel_session list \<Rightarrow> string \<Rightarrow> nat" where
  "cs_count_by_channel rows cid = length (filter (\<lambda>r. cs_channel_id r = cid) rows)"

text \<open>
  Modelled from the spec: \<open>session_manager.store_session\<close> (\<open>core/session_manager.py\<close> is
  not among the sources). Section 4.6: persist a new internal session record, titled
  from the sender.
\<close>

definition store_session :: "database \<Rightarrow> json \<Rightarrow> json \<Rightarrow> string \<Rightarrow> database" where
  "store_session db session_id agent_id title =
     db\<lparr>db_sessions := db_sessions db @ [(session_id, agent_id, title)]\<rparr>"

section \<open>Channel gateway state (\<open>channels/gateway.py\<close>, \<open>ChannelGateway\<close>)\<close>

text \<open>
  Adapters and their supervising asyncio tasks are objects outside the gateway; the
  gateway holds references. What the gateway asks of them is recorded in a log.
\<close>

datatype adapter_task = AdapterTask (is_done: bool)

record outbound_message =
  om_channel_id :: string
  om_external_chat_id :: string
  om_external_thread_id :: "string option"
  om_reply_to_message_id :: "string option"
  om_text :: string

record engine_call =
  ec_agent_id :: json
  ec_user_message :: string
  ec_session_id :: "json option"
  ec_enable_skills :: bool
  ec_enable_mcp :: bool
  ec_channel_context :: pydict

datatype effect =
    AdapterStop string
  | TaskCancel string
  | SendMessage string outbound_message
  | RunConversation engine_call

record gateway =
  adapters :: "string \<rightharpoonup> nat"
  tasks :: "string \<rightharpoonup> adapter_task"
  rate_limiter :: windows
  channel_cache :: "string \<rightharpoonup> pydict"

record system =
  gw :: gateway
  db :: database
  log :: "effect list"

section \<open>Stopping a channel (\<open>ChannelGateway.stop_channel\<close>)\<close>

text \<open>
  \<open>adapter.stop()\<close> may raise; the exception is logged and dropped, so the outcome of
  the call does not enter the state. A supervising task that is not done is cancelled
  and awaited.
\<close>

definition stop_channel :: "system \<Rightarrow> string \<Rightarrow> system" where
  "stop_channel s channel_id =
     (let adapter = adapters (gw s) channel_id;
          task = tasks (gw s) channel_id;
          g = (gw s)\<lparr> adapters := (adapters (gw s))(channel_id := None),
                      tasks := (tasks (gw s))(channel_id := None),
                      channel_cache := (channel_cache (gw s))(channel_id := None) \<rparr>;
          l1 = (case adapter of None \<Rightarrow> log s | Some a \<Rightarrow> log s @ [AdapterStop channel_id]);
          l2 = (case task of
                  None \<Rightarrow> l1
                | Some t \<Rightarrow> (if \<not> is_done t then l1 @ [TaskCancel channel_id] else l1));
          d = channels_update (db s) channel_id
                [(''status'', JStr ''inactive''), (''error_message'', JNull)]
      in \<lparr> gw = g, db = d, log = l2 \<rparr>)"

section \<open>Channel status (\<open>ChannelGateway.get_channel_status\<close>)\<close>

text \<open>
  Every read of the store may fail. Which of the three reads made by
  \<open>get_channel_status\<close> fails is an input: the two \<open>db.channels.get\<close> calls and the
  \<open>count_by_channel\<close> call.
\<close>

record status_faults =
  fault_get_for_status :: bool
  fault_count :: bool
  fault_get_for_error :: bool

definition store_read :: "bool \<Rightarrow> 'a \<Rightarrow> exn + 'a" where
  "store_read fails v = (if fails then Inl (StoreError ''store failure'') else Inr v)"

record channel_status =
  st_channel_id :: string
  st_status :: json
  st_uptime_seconds :: json
  st_messages_processed :: int
  st_active_sessions :: nat
  st_error_message :: json

text \<open>\<open>d.get(k)\<close> without a default: a missing key gives \<open>None\<close>.\<close>

definition dget_none :: "pydict \<Rightarrow> string \<Rightarrow> json" where
  "dget_none d k = (case dget d k of None \<Rightarrow> JNull | Some v \<Rightarrow> v)"

definition get_channel_status :: "status_faults \<Rightarrow> system \<Rightarrow> string \<Rightarrow> exn + channel_status" where
  "get_channel_status flt s channel_id =
     (let is_running = (adapters (gw s) channel_id \<noteq> None);
          status_r =
            (if is_running then Inr (JStr ''active'')
             else (case store_read (fault_get_for_status flt) (db_channels (db s) channel_id) of
                     Inl e \<Rightarrow> Inl e
                   | Inr channel \<Rightarrow>
                       Inr (case channel of
                              None \<Rightarrow> JStr ''inactive''
                            | Some ch \<Rightarrow>
                                (if ch \<noteq> []
                                 then (case dget ch ''status'' of None \<Rightarrow> JStr ''inactive'' | Some v \<Rightarrow> v)
                                 else JStr ''inactive''))))
      in case status_r of
           Inl e \<Rightarrow> Inl e
         | Inr status \<Rightarrow>
             (let active_sessions =
                    (case store_read (fault_count flt)
                            (cs_count_by_channel (db_channel_sessions (db s)) channel_id) of
                       Inl e \<Rightarrow> 0
                     | Inr n \<Rightarrow> n);
                  cached = channel_cache (gw s) channel_id;
                  uncached =
                    (if \<not> is_running
                     then (case store_read (fault_get_for_error flt) (db_channels (db s) channel_id) of
                             Inl e \<Rightarrow> Inl e
                           | Inr ch \<Rightarrow>
                               Inr (case ch of
                                      None \<Rightarrow> JNull
                                    | Some c \<Rightarrow> (if c \<noteq> [] then dget_none c ''error_message'' else JNull)))
                     else Inr JNull);
                  error_r =
                    (case cached of
                       None \<Rightarrow> uncached
                     | Some c \<Rightarrow> (if c \<noteq> [] then Inr (dget_none c ''error_message'') else uncached))
              in case error_r of
                   Inl e \<Rightarrow> Inl e
                 | Inr error_message \<Rightarrow>
                     Inr \<lparr> st_channel_id = channel_id, st_status = status,
                           st_uptime_seconds = JNull, st_messages_processed = 0,
                           st_active_sessions = active_sessions,
                           st_error_message = error_message \<rparr>))"

text \<open>
  A channel whose adapter crashed: the gateway holds no adapter, task or cache entry
  for it, and its persisted record is in status \<open>error\<close>.
\<close>

definition crashed_channel :: system where
  "crashed_channel =
     \<lparr> gw = \<lparr> adapters = Map.empty, tasks = Map.empty, rate_limiter = Map.empty,
              channel_cache = Map.empty \<rparr>,
       db = \<lparr> db_channels =
                [''c1'' \<mapsto> [(''id'', JStr ''c1''), (''status'', JStr ''error''),
                            (''error_message'', JStr ''Adapter crashed unexpectedly'')]],
              db_agents = Map.empty, db_tasks = Map.empty, db_channel_sessions = [],
              db_channel_messages = [], db_sessions = [] \<rparr>,
       log = [] \<rparr>"

section \<open>Session resolution (\<open>ChannelGateway._resolve_session\<close>)\<close>

text \<open>
  The two \<open>uuid4()\<close> draws and the clock reading of a call are inputs. The result is
  \<open>(session_id, channel_session_id, is_new)\<close> together with the store after the call.
\<close>

record resolve_env =
  re_uuid_session :: string
  re_uuid_channel_session :: string
  re_now :: string

definition resolve_session ::
  "resolve_env \<Rightarrow> database \<Rightarrow> string \<Rightarrow> json \<Rightarrow> string \<Rightarrow> string \<Rightarrow> string option \<Rightarrow> string option
     \<Rightarrow> (json \<times> string \<times> bool) \<times> database" where
  "resolve_session env d channel_id agent_id external_chat_id external_sender_id
       external_thread_id sender_display_name =
     (case cs_find_by_external (db_channel_sessions d) channel_id external_chat_id external_thread_id of
        Some existing \<Rightarrow>
          (let is_new = (cs_message_count existing = 0)
           in ((cs_session_id existing, cs_id existing, is_new), d))
      | None \<Rightarrow>
          (let session_id = re_uuid_session env;
               title = ''Channel: '' @
                 (case sender_display_name of
                    None \<Rightarrow> external_sender_id
                  | Some n \<Rightarrow> (if n \<noteq> [] then n else external_sender_id));
               d1 = store_session d (JStr session_id) agent_id title;
               channel_session_id = re_uuid_channel_session env;
               d2 = d1\<lparr>db_channel_sessions :=
                      cs_put (db_channel_sessions d1)
                        \<lparr> cs_id = channel_session_id,
                          cs_channel_id = channel_id,
                          cs_external_chat_id = external_chat_id,
                          cs_external_sender_id = external_sender_id,
                          cs_external_thread_id = external_thread_id,
                          cs_session_id = JStr session_id,
                          cs_agent_id = agent_id,
                          cs_sender_display_name = sender_display_name,
                          cs_last_message_at = re_now env,
                          cs_message_count = 0 \<rparr>\<rparr>
           in ((JStr session_id, channel_session_id, True), d2)))"

definition empty_database :: database where
  "empty_database =
     \<lparr> db_channels = Map.empty, db_agents = Map.empty, db_tasks = Map.empty,
       db_channel_sessions = [], db_channel_messages = [], db_sessions = [] \<rparr>"

definition resolve_env1 :: resolve_env where
  "resolve_env1 = \<lparr> re_uuid_session = ''s-1'', re_uuid_channel_session = ''cs-1'', re_now = ''t1'' \<rparr>"

definition resolve_env2 :: resolve_env where
  "resolve_env2 = \<lparr> re_uuid_session = ''s-2'', re_uuid_channel_session = ''cs-2'', re_now = ''t2'' \<rparr>"

section \<open>Inbound message routing (\<open>ChannelGateway.handle_inbound_message\<close>)\<close>

record inbound_message =
  im_channel_id :: string
  im_external_chat_id :: string
  im_external_sender_id :: string
  im_external_thread_id :: "string option"
  im_external_message_id :: "string option"
  im_text :: string
  im_sender_display_name :: "string option"
  im_attachments :: "pydict list"
  im_metadata :: pydict

text \<open>
  What one call reads from outside the gateway and the store: the clock, the \<open>uuid4()\<close>
  draws, \<open>json.loads\<close>, Python's \<open>str()\<close> of a value that is not a string, the text
  returned by \<open>_prepare_message_text\<close> (which stages attachments on disk), the event
  stream of \<open>agent_manager.run_conversation\<close> for a given call (its events, and whether
  it raises after them), and the outcome of \<open>adapter.send_message\<close> for the reply.
\<close>

record inbound_env =
  ie_time :: real
  ie_resolve :: resolve_env
  ie_now_update :: string
  ie_uuid_inbound :: string
  ie_uuid_outbound :: string
  ie_json_loads :: "string \<Rightarrow> json option"
  ie_py_str :: "json \<Rightarrow> string"
  ie_final_text :: string
  ie_engine :: "engine_call \<Rightarrow> event list \<times> bool"
  ie_send :: "exn + string option"

text \<open>\<open>a or b\<close>, and the formatting of a value inside an f-string.\<close>

definition por :: "json \<Rightarrow> json \<Rightarrow> json" where
  "por a b = (if truthy a then a else b)"

definition fmt :: "(json \<Rightarrow> string) \<Rightarrow> json \<Rightarrow> string" where
  "fmt py_str v = (case v of JStr s \<Rightarrow> s | _ \<Rightarrow> py_str v)"

text \<open>The rate limit is compared with \<open>0\<close>: an integer or a boolean, otherwise \<open>TypeError\<close>.\<close>

definition as_limit :: "json \<Rightarrow> exn + int" where
  "as_limit v =
     (case v of
        JNum n \<Rightarrow> Inr n
      | JBool b \<Rightarrow> Inr (if b then 1 else 0)
      | _ \<Rightarrow> Inl TypeError)"

text \<open>
  The channel's \<open>config\<close>: parsed when it is a string (an unparsable string gives the
  empty dictionary); \<open>.get\<close> on anything but a dictionary raises \<open>AttributeError\<close>.
\<close>

definition config_dict :: "(string \<Rightarrow> json option) \<Rightarrow> json \<Rightarrow> exn + pydict" where
  "config_dict json_loads v =
     (case v of
        JStr s \<Rightarrow>
          (case json_loads s of
             None \<Rightarrow> Inr []
           | Some parsed \<Rightarrow> (case parsed of JDict d \<Rightarrow> Inr d | _ \<Rightarrow> Inl AttributeError))
      | JDict d \<Rightarrow> Inr d
      | _ \<Rightarrow> Inl AttributeError)"

text \<open>\<open>for block in content_blocks\<close>: what iterating over a value yields.\<close>

definition iter_blocks :: "json \<Rightarrow> exn + json list" where
  "iter_blocks v =
     (case v of
        JList xs \<Rightarrow> Inr xs
      | JStr s \<Rightarrow> Inr (map (\<lambda>c. JStr [c]) s)
      | JDict kvs \<Rightarrow> Inr (map (\<lambda>p. JStr (fst p)) kvs)
      | _ \<Rightarrow> Inl TypeError)"

text \<open>The text of an assistant event: the concatenation of its non-empty text blocks.\<close>

fun text_blocks :: "json list \<Rightarrow> exn + string" where
  "text_blocks [] = Inr []"
| "text_blocks (b # bs) =
     (case b of
        JDict blk \<Rightarrow>
          (if dget blk ''type'' = Some (JStr ''text'')
           then (let text = (case dget blk ''text'' of None \<Rightarrow> JStr [] | Some t \<Rightarrow> t)
                 in if truthy text
                    then (case text of
                            JStr t \<Rightarrow>
                              (case text_blocks bs of Inl e \<Rightarrow> Inl e | Inr rest \<Rightarrow> Inr (t @ rest))
                          | _ \<Rightarrow> Inl TypeError)
                    else text_blocks bs)
           else text_blocks bs)
      | _ \<Rightarrow> text_blocks bs)"

record loop_state =
  ls_reply_text :: string
  ls_error_occurred :: bool
  ls_session_id :: json
  ls_rows :: "channel_session list"

text \<open>
  The body of the \<open>async for\<close> loop over the engine's events. An exception raised inside
  the body leaves the loop; it happens before the body has assigned anything.
\<close>

definition consume_event :: "(json \<Rightarrow> string) \<Rightarrow> string \<Rightarrow> loop_state \<Rightarrow> event \<Rightarrow> exn + loop_state" where
  "consume_event py_str channel_session_id ls ev =
     (let event_type = (case dget ev ''type'' of None \<Rightarrow> JStr [] | Some t \<Rightarrow> t)
      in if event_type = JStr ''assistant'' then
           (case iter_blocks (case dget ev ''content'' of None \<Rightarrow> JList [] | Some c \<Rightarrow> c) of
              Inl e \<Rightarrow> Inl e
            | Inr content_blocks \<Rightarrow>
                (case text_blocks content_blocks of
                   Inl e \<Rightarrow> Inl e
                 | Inr current_text \<Rightarrow>
                     Inr (if current_text \<noteq> [] then ls\<lparr>ls_reply_text := current_text\<rparr> else ls)))
         else if event_type = JStr ''session_start'' then
           (let new_sid = dget_none ev ''sessionId''
            in if truthy new_sid \<and> new_sid \<noteq> ls_session_id ls
               then Inr (ls\<lparr> ls_session_id := new_sid,
                            ls_rows := cs_update (ls_rows ls) channel_session_id
                              \<lparr> up_session_id = Some new_sid, up_last_message_at = None,
                                up_message_count = None \<rparr> \<rparr>)
               else Inr ls)
         else if event_type = JStr ''result'' then
           (let subtype = (case dget ev ''subtype'' of None \<Rightarrow> JStr [] | Some v \<Rightarrow> v)
            in if truthy subtype
               then (case py_in ''error'' subtype of
                       Inl e \<Rightarrow> Inl e
                     | Inr has_error \<Rightarrow>
                         (if has_error
                          then (let error_detail =
                                      por (por (dget_none ev ''error'') (dget_none ev ''message'')) subtype;
                                    ls1 = (if ls_reply_text ls = []
                                           then ls\<lparr>ls_reply_text :=
                                                  ''Sorry, the agent encountered an error: ''
                                                    @ fmt py_str error_detail\<rparr>
                                           else ls)
                                in Inr (ls1\<lparr>ls_error_occurred := True\<rparr>))
                          else Inr ls))
               else Inr ls)
         else if event_type = JStr ''error'' then
           (let ls1 = (if ls_reply_text ls = []
                       then ls\<lparr>ls_reply_text := ''Sorry, I encountered an error processing your request.''\<rparr>
                       else ls)
            in Inr (ls1\<lparr>ls_error_occurred := True\<rparr>))
         else Inr ls)"

text \<open>The loop: the state when it ends, and whether the body raised.\<close>

fun consume :: "(json \<Rightarrow> string) \<Rightarrow> string \<Rightarrow> loop_state \<Rightarrow> event list \<Rightarrow> loop_state \<times> bool" where
  "consume py_str csid ls [] = (ls, False)"
| "consume py_str csid ls (e # es) =
     (case consume_event py_str csid ls e of
        Inl x \<Rightarrow> (ls, True)
      | Inr ls' \<Rightarrow> consume py_str csid ls' es)"

text \<open>
  The last step of the pipeline: \<open>last_message_at\<close> is always written, \<open>message_count\<close>
  only when the exchange did not error.
\<close>

definition update_counters :: "channel_session list \<Rightarrow> string \<Rightarrow> string \<Rightarrow> bool \<Rightarrow> channel_session list" where
  "update_counters rows channel_session_id now error_occurred =
     (let count =
            (if \<not> error_occurred
             then Some ((case cs_get rows channel_session_id of
                           None \<Rightarrow> 0
                         | Some existing_cs \<Rightarrow> cs_message_count existing_cs) + 2)
             else None);
          updates = \<lparr> up_session_id = None, up_last_message_at = Some now, up_message_count = count \<rparr>
      in cs_update rows channel_session_id updates)"

text \<open>
  The audit records. Modelled from the spec: \<open>db.channel_messages.put\<close> (store code not
  among the sources); Section 3: the message log is append-only.
\<close>

definition inbound_record :: "inbound_env \<Rightarrow> inbound_message \<Rightarrow> string \<Rightarrow> pydict" where
  "inbound_record env msg channel_session_id =
     [(''id'', JStr (ie_uuid_inbound env)),
      (''channel_session_id'', JStr channel_session_id),
      (''direction'', JStr ''inbound''),
      (''external_message_id'', opt_str (im_external_message_id msg)),
      (''content'', JStr (if im_text msg \<noteq> [] then im_text msg else ''[Attachment message]'')),
      (''content_type'',
         (case dget (im_metadata msg) ''message_type'' of None \<Rightarrow> JStr ''text'' | Some v \<Rightarrow> v)),
      (''metadata'',
         JDict (dmerge (im_metadata msg)
           [(''attachment_count'', JNum (int (length (im_attachments msg)))),
            (''attachment_names'', JList (map (\<lambda>a. dget_none a ''file_name'') (im_attachments msg)))])),
      (''status'', JStr ''received'')]"

definition outbound_record :: "inbound_env \<Rightarrow> string \<Rightarrow> string option \<Rightarrow> string \<Rightarrow> bool \<Rightarrow> pydict" where
  "outbound_record env channel_session_id external_message_id reply_text error_occurred =
     [(''id'', JStr (ie_uuid_outbound env)),
      (''channel_session_id'', JStr channel_session_id),
      (''direction'', JStr ''outbound''),
      (''external_message_id'', opt_str external_message_id),
      (''content'', JStr reply_text),
      (''content_type'', JStr ''text''),
      (''metadata'', JDict []),
      (''status'', JStr (if error_occurred then ''error'' else ''sent''))]"

record exchange =
  ex_channel_session_id :: string
  ex_is_new :: bool
  ex_engine_call :: engine_call
  ex_reply_text :: string
  ex_error_occurred :: bool

datatype outcome = Dropped string | Raised exn | Processed exchange

text \<open>
  The \<open>try\<close> block around the engine call: the loop state when the block is left, and
  whether it was left by an exception (raised in the loop body or by the engine).
\<close>

definition exchange_loop ::
  "inbound_env \<Rightarrow> string \<Rightarrow> json \<Rightarrow> channel_session list \<Rightarrow> engine_call \<Rightarrow> loop_state \<times> bool" where
  "exchange_loop env channel_session_id session_id rows call =
     (let stream = ie_engine env call;
          ls0 = \<lparr> ls_reply_text = [], ls_error_occurred = False,
                  ls_session_id = session_id, ls_rows = rows \<rparr>;
          looped = consume (ie_py_str env) channel_session_id ls0 (fst stream)
      in (fst looped, snd looped \<or> snd stream))"

text \<open>Steps 4 to 7 of the pipeline, for a message that passed the gates.\<close>

definition run_exchange ::
  "inbound_env \<Rightarrow> system \<Rightarrow> inbound_message \<Rightarrow> pydict \<Rightarrow> json \<Rightarrow> outcome \<times> system" where
  "run_exchange env s msg channel agent_id =
     (let channel_id = im_channel_id msg;
          resolved = resolve_session (ie_resolve env) (db s) channel_id agent_id
                       (im_external_chat_id msg) (im_external_sender_id msg)
                       (im_external_thread_id msg) (im_sender_display_name msg);
          session_id = fst (fst resolved);
          channel_session_id = fst (snd (fst resolved));
          is_new = snd (snd (fst resolved));
          d1 = snd resolved;
          d2 = d1\<lparr>db_channel_messages :=
                 db_channel_messages d1 @ [inbound_record env msg channel_session_id]\<rparr>;
          enable_skills = truthy (case dget channel ''enable_skills'' of None \<Rightarrow> JBool False | Some v \<Rightarrow> v);
          enable_mcp = truthy (case dget channel ''enable_mcp'' of None \<Rightarrow> JBool False | Some v \<Rightarrow> v)
      in case config_dict (ie_json_loads env)
                (case dget channel ''config'' of None \<Rightarrow> JDict [] | Some v \<Rightarrow> v) of
           Inl e \<Rightarrow> (Raised e, s\<lparr>db := d2\<rparr>)
         | Inr channel_config \<Rightarrow>
             (let channel_context =
                    [(''channel_type'', (case dget channel ''channel_type'' of None \<Rightarrow> JStr [] | Some v \<Rightarrow> v)),
                     (''channel_id'', JStr channel_id),
                     (''chat_id'', JStr (im_external_chat_id msg)),
                     (''reply_to_message_id'', opt_str (im_external_message_id msg)),
                     (''app_id'', (case dget channel_config ''app_id'' of None \<Rightarrow> JStr [] | Some v \<Rightarrow> v)),
                     (''app_secret'', (case dget channel_config ''app_secret'' of None \<Rightarrow> JStr [] | Some v \<Rightarrow> v))];
                  final_text = ie_final_text env;
                  resume_sid = (if is_new then None else Some session_id);
                  call = \<lparr> ec_agent_id = agent_id, ec_user_message = final_text,
                           ec_session_id = resume_sid, ec_enable_skills = enable_skills,
                           ec_enable_mcp = enable_mcp, ec_channel_context = channel_context \<rparr>;
                  looped = exchange_loop env channel_session_id session_id
                             (db_channel_sessions d2) call;
                  ls1 = fst looped;
                  failed = snd looped;
                  reply_text = (if failed
                                then ''Sorry, an unexpected error occurred. Please try again later.''
                                else ls_reply_text ls1);
                  error_occurred = (failed \<or> ls_error_occurred ls1);
                  reply_text = (if reply_text = [] then ''(No response generated)'' else reply_text);
                  outbound = \<lparr> om_channel_id = channel_id,
                               om_external_chat_id = im_external_chat_id msg,
                               om_external_thread_id = im_external_thread_id msg,
                               om_reply_to_message_id = im_external_message_id msg,
                               om_text = reply_text \<rparr>;
                  adapter = adapters (gw s) channel_id;
                  external_message_id =
                    (case adapter of
                       None \<Rightarrow> None
                     | Some a \<Rightarrow> (case ie_send env of Inl e \<Rightarrow> None | Inr r \<Rightarrow> r));
                  l1 = log s @ [RunConversation call]
                         @ (case adapter of None \<Rightarrow> [] | Some a \<Rightarrow> [SendMessage channel_id outbound]);
                  d3 = d2\<lparr> db_channel_sessions := ls_rows ls1,
                           db_channel_messages :=
                             db_channel_messages d2
                               @ [outbound_record env channel_session_id external_message_id
                                    reply_text error_occurred] \<rparr>;
                  d4 = d3\<lparr>db_channel_sessions :=
                         update_counters (db_channel_sessions d3) channel_session_id
                           (ie_now_update env) error_occurred\<rparr>
              in (Processed \<lparr> ex_channel_session_id = channel_session_id, ex_is_new = is_new,
                               ex_engine_call = call, ex_reply_text = reply_text,
                               ex_error_occurred = error_occurred \<rparr>,
                  s\<lparr>db := d4, log := l1\<rparr>)))"

text \<open>Steps 2 and 3: access control, then the rate limit.\<close>

definition rate_limit_notice :: "inbound_message \<Rightarrow> outbound_message" where
  "rate_limit_notice msg =
     \<lparr> om_channel_id = im_channel_id msg,
       om_external_chat_id = im_external_chat_id msg,
       om_external_thread_id = im_external_thread_id msg,
       om_reply_to_message_id = im_external_message_id msg,
       om_text = ''You are sending messages too quickly. Please wait a moment and try again.'' \<rparr>"

definition route :: "inbound_env \<Rightarrow> system \<Rightarrow> inbound_message \<Rightarrow> pydict \<Rightarrow> outcome \<times> system" where
  "route env s msg channel =
     (let channel_id = im_channel_id msg;
          agent_id = dget_none channel ''agent_id''
      in if \<not> truthy agent_id then (Dropped ''no agent_id'', s)
         else
           (case check_access (ie_json_loads env) channel (im_external_sender_id msg) of
              Inl e \<Rightarrow> (Raised e, s)
            | Inr allowed \<Rightarrow>
                (if \<not> allowed then (Dropped ''access denied'', s)
                 else
                   (case as_limit (case dget channel ''rate_limit_per_minute'' of
                                     None \<Rightarrow> JNum 10 | Some v \<Rightarrow> v) of
                      Inl e \<Rightarrow> (Raised e, s)
                    | Inr rate_limit \<Rightarrow>
                        (let verdict = is_allowed (ie_time env) (rate_limiter (gw s))
                                         (im_external_sender_id msg) rate_limit;
                             s1 = s\<lparr>gw := (gw s)\<lparr>rate_limiter := snd verdict\<rparr>\<rparr>
                         in if \<not> fst verdict
                            then (Dropped ''rate limit exceeded'',
                                  s1\<lparr>log := (case adapters (gw s) channel_id of
                                               None \<Rightarrow> log s
                                             | Some a \<Rightarrow> log s @ [SendMessage channel_id (rate_limit_notice msg)])\<rparr>)
                            else run_exchange env s1 msg channel agent_id)))))"

text \<open>Step 1: the channel record, from the cache or else from the store.\<close>

definition handle_inbound_message :: "inbound_env \<Rightarrow> system \<Rightarrow> inbound_message \<Rightarrow> outcome \<times> system" where
  "handle_inbound_message env s msg =
     (let channel_id = im_channel_id msg;
          cached = (case channel_cache (gw s) channel_id of
                      None \<Rightarrow> None
                    | Some c \<Rightarrow> (if c \<noteq> [] then Some c else None))
      in case cached of
           Some channel \<Rightarrow> route env s msg channel
         | None \<Rightarrow>
             (case db_channels (db s) channel_id of
                None \<Rightarrow> (Dropped ''channel not found'', s)
              | Some channel \<Rightarrow>
                  (if channel = [] then (Dropped ''channel not found'', s)
                   else route env
                          (s\<lparr>gw := (gw s)\<lparr>channel_cache := (channel_cache (gw s))(channel_id \<mapsto> channel)\<rparr>\<rparr>)
                          msg channel)))"

text \<open>
  A channel session without the two fields an exchange may rewrite before its counters
  are updated: the session id and the time of the last message.
\<close>

definition erase :: "channel_session \<Rightarrow> channel_session" where
  "erase r = r\<lparr>cs_session_id := JNull, cs_last_message_at := []\<rparr>"

text \<open>
  An open channel \<open>c1\<close> bound to agent \<open>a1\<close>, running, with no session yet, and a first
  message \<open>hi\<close> from sender \<open>U1\<close>; an engine whose stream is a single \<open>error\<close> event, and
  one that answers \<open>hello\<close>.
\<close>

definition open_channel_system :: system where
  "open_channel_system =
     \<lparr> gw = \<lparr> adapters = [''c1'' \<mapsto> 0], tasks = [''c1'' \<mapsto> AdapterTask False],
              rate_limiter = Map.empty, channel_cache = Map.empty \<rparr>,
       db = empty_database\<lparr>db_channels :=
              [''c1'' \<mapsto> [(''id'', JStr ''c1''), (''agent_id'', JStr ''a1''),
                          (''access_mode'', JStr ''open''), (''rate_limit_per_minute'', JNum 10)]]\<rparr>,
       log = [] \<rparr>"

definition hi_message :: inbound_message where
  "hi_message =
     \<lparr> im_channel_id = ''c1'', im_external_chat_id = ''chat1'', im_external_sender_id = ''U1'',
       im_external_thread_id = None, im_external_message_id = Some ''m1'', im_text = ''hi'',
       im_sender_display_name = None, im_attachments = [], im_metadata = [] \<rparr>"

definition failing_env :: inbound_env where
  "failing_env =
     \<lparr> ie_time = 1000, ie_resolve = resolve_env1, ie_now_update = ''t-upd'',
       ie_uuid_inbound = ''in-1'', ie_uuid_outbound = ''out-1'',
       ie_json_loads = (\<lambda>str. None), ie_py_str = (\<lambda>v. ''?''), ie_final_text = ''hi'',
       ie_engine = (\<lambda>call. ([[(''type'', JStr ''error''), (''error'', JStr ''boom'')]], False)),
       ie_send = Inr (Some ''x1'') \<rparr>"

definition answering_env :: inbound_env where
  "answering_env =
     \<lparr> ie_time = 1010, ie_resolve = resolve_env2, ie_now_update = ''t-upd2'',
       ie_uuid_inbound = ''in-2'', ie_uuid_outbound = ''out-2'',
       ie_json_loads = (\<lambda>str. None), ie_py_str = (\<lambda>v. ''?''), ie_final_text = ''hi'',
       ie_engine = (\<lambda>call. ([[(''type'', JStr ''session_start''), (''sessionId'', JStr ''s1'')],
                               [(''type'', JStr ''assistant''),
                                (''content'', JList [JDict [(''type'', JStr ''text''), (''text'', JStr ''hello'')]])],
                               [(''type'', JStr ''result''), (''subtype'', JStr ''success'')]], False)),
       ie_send = Inr (Some ''x2'') \<rparr>"

section \<open>Creating a task (\<open>TaskManager.create_task\<close>)\<close>

text \<open>
  What a call reads from outside: \<open>uuid4().hex\<close>, the clock, Python's \<open>str()\<close> of a value
  that is not a string, and the address of the \<open>asyncio.Queue\<close> object it allocates.
\<close>

record create_env =
  ce_uuid_hex :: string
  ce_now :: string
  ce_py_str :: "json \<Rightarrow> string"
  ce_new_queue :: qref

text \<open>
  The \<open>for ... else\<close> over the content blocks: the first block of type \<open>text\<close> with a
  truthy text gives the title \<open>text[:50]\<close> (a string or a list can be sliced, any other
  value raises \<open>TypeError\<close>); without such a block the title is a fixed string.
\<close>

fun content_title :: "pydict list \<Rightarrow> exn + json" where
  "content_title [] = Inr (JStr ''[Attachment message]'')"
| "content_title (block # blocks) =
     (if dget block ''type'' = Some (JStr ''text'') \<and> truthy (dget_none block ''text'')
      then (case (case dget block ''text'' of None \<Rightarrow> JStr [] | Some t \<Rightarrow> t) of
              JStr t \<Rightarrow> Inr (JStr (take 50 t))
            | JList xs \<Rightarrow> Inr (JList (take 50 xs))
            | _ \<Rightarrow> Inl TypeError)
      else content_title blocks)"

text \<open>\<open>title += "..."\<close>: on a string it appends, on a list it extends by the characters.\<close>

definition add_ellipsis :: "json \<Rightarrow> exn + json" where
  "add_ellipsis title =
     (case title of
        JStr t \<Rightarrow> Inr (JStr (t @ ''...''))
      | JList xs \<Rightarrow> Inr (JList (xs @ map (\<lambda>c. JStr [c]) ''...''))
      | _ \<Rightarrow> Inl TypeError)"

definition task_title_of ::
  "(json \<Rightarrow> string) \<Rightarrow> pydict \<Rightarrow> string option \<Rightarrow> pydict list option \<Rightarrow> exn + json" where
  "task_title_of py_str agent_config message content =
     (let has_content = (case content of None \<Rightarrow> False | Some c \<Rightarrow> c \<noteq> []);
          has_message = (case message of None \<Rightarrow> False | Some m \<Rightarrow> m \<noteq> []);
          title =
            (if has_content then content_title (case content of None \<Rightarrow> [] | Some c \<Rightarrow> c)
             else if has_message
             then Inr (JStr (take 50 (case message of None \<Rightarrow> [] | Some m \<Rightarrow> m)))
             else Inr (JStr (''Task with ''
                    @ fmt py_str (case dget agent_config ''name'' of None \<Rightarrow> JStr ''agent'' | Some n \<Rightarrow> n))))
      in case title of
           Inl e \<Rightarrow> Inl e
         | Inr t \<Rightarrow>
             (if has_message \<and> length (case message of None \<Rightarrow> [] | Some m \<Rightarrow> m) > 50
              then add_ellipsis t
              else Inr t))"

text \<open>
  Modelled from the spec: \<open>db.agents.get\<close> and \<open>db.tasks.put\<close> (store code not among the
  sources) are the lookup and the insertion of Section 6 on the tables \<open>db_agents\<close> and
  \<open>db_tasks\<close>. The result of \<open>create_task\<close> is the raised exception or the task record,
  together with the manager and the store after the call.
\<close>

definition create_task ::
  "create_env \<Rightarrow> task_manager \<times> database \<Rightarrow> string \<Rightarrow> string option \<Rightarrow> pydict list option
     \<Rightarrow> bool \<Rightarrow> bool \<Rightarrow> string list option \<Rightarrow> (exn + task) \<times> (task_manager \<times> database)" where
  "create_task env st agent_id message content enable_skills enable_mcp add_dirs =
     (let tm = fst st; d = snd st;
          agent_config = (case db_agents d agent_id of None \<Rightarrow> [] | Some cfg \<Rightarrow> cfg)
      in if agent_config = []
         then (Inl (ValueError (''Agent '' @ agent_id @ '' not found'')), st)
         else
           (case task_title_of (ce_py_str env) agent_config message content of
              Inl e \<Rightarrow> (Inl e, st)
            | Inr title \<Rightarrow>
                (let tid = ''task_'' @ take 12 (ce_uuid_hex env);
                     t = \<lparr> tk_id = tid, tk_agent_id = agent_id, tk_session_id = None,
                           tk_status = ''pending'', tk_title = title,
                           tk_model = dget_none agent_config ''model'',
                           tk_created_at = ce_now env, tk_started_at = None,
                           tk_completed_at = None, tk_error = JNull,
                           tk_work_dir = (case add_dirs of
                                              None \<Rightarrow> None
                                            | Some ds \<Rightarrow> (case ds of [] \<Rightarrow> None | x # _ \<Rightarrow> Some x)) \<rparr>;
                     d1 = d\<lparr>db_tasks := (db_tasks d)(tid \<mapsto> t)\<rparr>;
                     tm1 = tm\<lparr> event_buffers := (event_buffers tm)(tid \<mapsto> []),
                              subscribers := (subscribers tm)(tid \<mapsto> []),
                              message_queues := (message_queues tm)(tid \<mapsto> ce_new_queue env),
                              queues := (queues tm)(ce_new_queue env := []) \<rparr>;
                     tm2 = tm1\<lparr>running_tasks := (running_tasks tm1)(tid \<mapsto>
                              \<lparr> ra_task_id = tid, ra_agent_id = agent_id, ra_message = message,
                                ra_content = content, ra_enable_skills = enable_skills,
                                ra_enable_mcp = enable_mcp, ra_add_dirs = add_dirs \<rparr>)\<rparr>
                 in (Inr t, (tm2, d1)))))"

section \<open>Subscribing to a task's events (\<open>TaskManager.subscribe\<close>)\<close>

text \<open>
  \<open>subscribe\<close> is an asynchronous generator. Its body runs when the consumer asks for the
  next item, from one suspension point to the next: the \<open>yield\<close> statements and the
  \<open>await queue.get()\<close> on an empty queue. Between two suspension points no other
  coroutine runs, so each resumption is one atomic step of the model. The phase records
  where the generator is suspended: not yet started, at the \<open>yield\<close> of the replay loop
  (with the buffered events still to be yielded), at \<open>queue.get()\<close>, at the \<open>yield\<close> of
  the live loop (with the event just yielded), or finished.
\<close>

datatype sub_phase = Created | Replay "event list" | Waiting | Yielded event | Closed

record subscription =
  sub_task_id :: string
  sub_queue :: qref
  sub_phase :: sub_phase

datatype next_result = Item event | Pending | Stop | Failed exn

definition is_terminal :: "event \<Rightarrow> bool" where
  "is_terminal ev =
     ((dget ev ''type'' = Some (JStr ''status'')
        \<and> dget_none ev ''status'' \<in> set [JStr ''completed'', JStr ''failed'', JStr ''cancelled''])
      \<or> dget_none ev ''type'' \<in> set [JStr ''result'', JStr ''error''])"

text \<open>
  Registration (the statements before the \<open>try\<close>): a new, empty queue object at address
  \<open>q\<close> is appended to the task's subscriber list, which is created when missing.
\<close>

definition register :: "task_manager \<Rightarrow> string \<Rightarrow> qref \<Rightarrow> task_manager" where
  "register tm task_id q =
     tm\<lparr> subscribers :=
           (subscribers tm)(task_id \<mapsto>
              (case subscribers tm task_id of None \<Rightarrow> [] | Some qs \<Rightarrow> qs) @ [q]),
         queues := (queues tm)(q := []) \<rparr>"

text \<open>
  The \<open>finally\<close> block: \<open>list.remove\<close> deletes the first occurrence of the queue and raises
  \<open>ValueError\<close> when there is none.
\<close>

definition unregister :: "task_manager \<Rightarrow> string \<Rightarrow> qref \<Rightarrow> exn option \<times> task_manager" where
  "unregister tm task_id q =
     (case subscribers tm task_id of
        None \<Rightarrow> (None, tm)
      | Some qs \<Rightarrow>
          (if q \<in> set qs
           then (None, tm\<lparr>subscribers := (subscribers tm)(task_id \<mapsto> remove1 q qs)\<rparr>)
           else (Some (ValueError ''list.remove(x): x not in list''), tm)))"

definition finish :: "task_manager \<Rightarrow> subscription \<Rightarrow> next_result \<times> task_manager \<times> subscription" where
  "finish tm sub =
     (case unregister tm (sub_task_id sub) (sub_queue sub) of
        (None, tm') \<Rightarrow> (Stop, tm', sub\<lparr>sub_phase := Closed\<rparr>)
      | (Some e, tm') \<Rightarrow> (Failed e, tm', sub\<lparr>sub_phase := Closed\<rparr>))"

text \<open>\<open>event = await queue.get(); yield event\<close>: on an empty queue the generator waits.\<close>

definition queue_get :: "task_manager \<Rightarrow> subscription \<Rightarrow> next_result \<times> task_manager \<times> subscription" where
  "queue_get tm sub =
     (case queues tm (sub_queue sub) of
        [] \<Rightarrow> (Pending, tm, sub\<lparr>sub_phase := Waiting\<rparr>)
      | ev # rest \<Rightarrow>
          (Item ev, tm\<lparr>queues := (queues tm)(sub_queue sub := rest)\<rparr>, sub\<lparr>sub_phase := Yielded ev\<rparr>))"

definition replay :: "task_manager \<Rightarrow> subscription \<Rightarrow> event list \<Rightarrow> next_result \<times> task_manager \<times> subscription" where
  "replay tm sub buffered_events =
     (case buffered_events of
        ev # rest \<Rightarrow> (Item ev, tm, sub\<lparr>sub_phase := Replay rest\<rparr>)
      | [] \<Rightarrow> queue_get tm sub)"

text \<open>One resumption of the generator by its consumer.\<close>

definition sub_next :: "task_manager \<Rightarrow> subscription \<Rightarrow> next_result \<times> task_manager \<times> subscription" where
  "sub_next tm sub =
     (case sub_phase sub of
        Created \<Rightarrow>
          (let tm1 = register tm (sub_task_id sub) (sub_queue sub);
               buffered_events = (case event_buffers tm1 (sub_task_id sub) of None \<Rightarrow> [] | Some b \<Rightarrow> b)
           in replay tm1 sub buffered_events)
      | Replay buffered_events \<Rightarrow> replay tm sub buffered_events
      | Waiting \<Rightarrow> queue_get tm sub
      | Yielded ev \<Rightarrow> (if is_terminal ev then finish tm sub else queue_get tm sub)
      | Closed \<Rightarrow> (Stop, tm, sub))"

text \<open>
  The consumer going away (cancellation, \<open>aclose\<close>): a generator suspended inside the
  \<open>try\<close> runs its \<open>finally\<close> block; one that never started has nothing to undo.
\<close>

definition sub_close :: "task_manager \<Rightarrow> subscription \<Rightarrow> task_manager \<times> subscription" where
  "sub_close tm sub =
     (case sub_phase sub of
        Created \<Rightarrow> (tm, sub\<lparr>sub_phase := Closed\<rparr>)
      | Closed \<Rightarrow> (tm, sub)
      | _ \<Rightarrow> (snd (unregister tm (sub_task_id sub) (sub_queue sub)), sub\<lparr>sub_phase := Closed\<rparr>))"

text \<open>
  A schedule interleaves the resumptions of one subscription with everything else that
  touches the shared state: emissions for any task, and other subscriptions registering
  their queue, reading it, and removing it. The third component of the state is the
  sequence of events the subscription has yielded so far.
\<close>

datatype action =
    Emit string event
  | Next
  | Other_register string qref
  | Other_get qref
  | Other_unregister string qref

fun step :: "task_manager \<times> subscription \<times> event list \<Rightarrow> action \<Rightarrow> task_manager \<times> subscription \<times> event list" where
  "step (tm, sub, out) (Emit tid ev) = (emit_event tm tid ev, sub, out)"
| "step (tm, sub, out) Next =
     (case sub_next tm sub of
        (Item ev, tm', sub') \<Rightarrow> (tm', sub', out @ [ev])
      | (r, tm', sub') \<Rightarrow> (tm', sub', out))"
| "step (tm, sub, out) (Other_register tid q') = (register tm tid q', sub, out)"
| "step (tm, sub, out) (Other_get q') = (tm\<lparr>queues := (queues tm)(q' := tl (queues tm q'))\<rparr>, sub, out)"
| "step (tm, sub, out) (Other_unregister tid q') = (snd (unregister tm tid q'), sub, out)"

definition run :: "task_manager \<times> subscription \<times> event list \<Rightarrow> action list \<Rightarrow> task_manager \<times> subscription \<times> event list" where
  "run st acts = fold (\<lambda>a s. step s a) acts st"

text \<open>The actions of other subscriptions concern queue objects other than \<open>q\<close>.\<close>

fun foreign :: "qref \<Rightarrow> action \<Rightarrow> bool" where
  "foreign q (Other_register tid q') = (q' \<noteq> q)"
| "foreign q (Other_get q') = (q' \<noteq> q)"
| "foreign q (Other_unregister tid q') = (q' \<noteq> q)"
| "foreign q a = True"

text \<open>The events a schedule emits for a task, in order.\<close>

fun emitted :: "string \<Rightarrow> action list \<Rightarrow> event list" where
  "emitted tid [] = []"
| "emitted tid (Emit t ev # acts) = (if t = tid then ev # emitted tid acts else emitted tid acts)"
| "emitted tid (a # acts) = emitted tid acts"

text \<open>A sequence of events up to and including its first terminal event.\<close>

fun upto_terminal :: "event list \<Rightarrow> event list" where
  "upto_terminal [] = []"
| "upto_terminal (ev # evs) = (if is_terminal ev then [ev] else ev # upto_terminal evs)"

text \<open>A queue object no subscriber list refers to.\<close>

definition unreferenced :: "task_manager \<Rightarrow> qref \<Rightarrow> bool" where
  "unreferenced tm q = (\<forall>t qs. subscribers tm t = Some qs \<longrightarrow> q \<notin> set qs)"

text \<open>
  The queue \<open>q\<close> of a running subscription to task \<open>tid\<close> occurs exactly once in that
  task's subscriber list and in no other list.
\<close>

definition registered :: "task_manager \<Rightarrow> string \<Rightarrow> qref \<Rightarrow> bool" where
  "registered tm tid q =
     ((\<exists>qs. subscribers tm tid = Some qs \<and> count_list qs q = 1)
      \<and> (\<forall>t qs. t \<noteq> tid \<longrightarrow> subscribers tm t = Some qs \<longrightarrow> q \<notin> set qs))"

text \<open>
  The invariant of a started subscription, relative to the snapshot \<open>S\<close> taken at
  registration and the events \<open>L\<close> emitted for the task since: what has been yielded,
  followed by what is still to be replayed and what waits in the queue, is \<open>S @ L\<close>;
  no terminal live event has been passed over.
\<close>

definition sub_inv ::
  "string \<Rightarrow> qref \<Rightarrow> event list \<Rightarrow> event list \<Rightarrow> task_manager \<times> subscription \<times> event list \<Rightarrow> bool" where
  "sub_inv tid q S L st =
     (case st of (tm, sub, out) \<Rightarrow>
        sub_task_id sub = tid \<and> sub_queue sub = q \<and>
        (case sub_phase sub of
           Created \<Rightarrow> False
         | Replay es \<Rightarrow> registered tm tid q \<and> out @ es = S \<and> queues tm q = L
         | Waiting \<Rightarrow>
             registered tm tid q
             \<and> (\<exists>ys. out = S @ ys \<and> L = ys @ queues tm q \<and> (\<forall>x \<in> set ys. \<not> is_terminal x))
         | Yielded ev \<Rightarrow>
             registered tm tid q
             \<and> (\<exists>ys. out = S @ ys @ [ev] \<and> L = ys @ [ev] @ queues tm q
                    \<and> (\<forall>x \<in> set ys. \<not> is_terminal x))
         | Closed \<Rightarrow>
             unreferenced tm q
             \<and> (\<exists>ys ev rest. out = S @ ys @ [ev] \<and> L = ys @ ev # rest \<and> is_terminal ev
                    \<and> (\<forall>x \<in> set ys. \<not> is_terminal x))))"

text \<open>
  A bound on the number of resumptions a subscription still needs when nothing more is
  emitted: one for every buffered event still to be replayed, one for every queued
  event up to the first terminal one, and one more to leave the loop after a terminal
  event.
\<close>

definition backlog :: "event list \<Rightarrow> nat" where
  "backlog es = length (upto_terminal es) + (if \<exists>e \<in> set es. is_terminal e then 1 else 0)"

definition steps_left :: "task_manager \<times> subscription \<times> event list \<Rightarrow> nat" where
  "steps_left st =
     (case st of (tm, sub, out) \<Rightarrow>
        (case sub_phase sub of
           Created \<Rightarrow> 0
         | Replay es \<Rightarrow> length es + backlog (queues tm (sub_queue sub))
         | Waiting \<Rightarrow> backlog (queues tm (sub_queue sub))
         | Yielded ev \<Rightarrow> (if is_terminal ev then 1 else backlog (queues tm (sub_queue sub)))
         | Closed \<Rightarrow> 0))"

text \<open>
  A task \<open>t1\<close> as \<open>create_task\<close> leaves it (empty buffer, no subscriber), numbered
  progress events, and the engine's final \<open>result\<close> event.
\<close>

definition created_task :: task_manager where
  "created_task = new_task_manager\<lparr>event_buffers := [''t1'' \<mapsto> []], subscribers := [''t1'' \<mapsto> []]\<rparr>"

definition seq_event :: "nat \<Rightarrow> event" where
  "seq_event i = [(''type'', JStr ''assistant''), (''seq'', JNum (int i))]"

definition result_event :: event where
  "result_event = [(''type'', JStr ''result'')]"

section \<open>Rate limiter: properties\<close>

lemma is_allowed_unlimited: "n \<le> 0 \<Longrightarrow> is_allowed now ws s n = (True, ws)"
  by (simp add: is_allowed_def)

lemma is_allowed_frame:
  "s' \<noteq> s \<Longrightarrow> snd (is_allowed now ws s n) s' = ws s'"
  by (simp add: is_allowed_def Let_def)

text \<open>
  While every stored timestamp is younger than 60 seconds at every call, nothing is
  evicted: the \<open>i\<close>-th call is admitted exactly while the window has room.
\<close>

lemma calls_no_eviction:
  assumes "0 < n"
    and "ws s = Some w0 \<or> (ws s = None \<and> w0 = [])"
    and "\<forall>x \<in> set w0. \<forall>t \<in> set ts. t - 60 < x"
    and "\<forall>a \<in> set ts. \<forall>b \<in> set ts. b - 60 < a"
  shows "fst (calls ws s n ts) = map (\<lambda>i. int (length w0 + i) < n) [0..<length ts]
       \<and> snd (calls ws s n ts) s = (if ts = [] then ws s else Some (w0 @ take (nat n - length w0) ts))"
  using assms
proof (induction ts arbitrary: ws w0)
  case Nil
  then show ?case by simp
next
  case (Cons t ts)
  have keep: "filter (\<lambda>x. t - 60 < x) w0 = w0"
    using Cons.prems(3) by (simp add: filter_id_conv)
  have win: "(case ws s of None \<Rightarrow> [] | Some w \<Rightarrow> w) = w0"
    using Cons.prems(2) by auto
  show ?case
  proof (cases "int (length w0) < n")
    case True
    then have step: "is_allowed t ws s n = (True, ws(s \<mapsto> w0 @ [t]))"
      using Cons.prems(1) win keep by (simp add: is_allowed_def Let_def)
    have p3: "\<forall>x \<in> set (w0 @ [t]). \<forall>u \<in> set ts. u - 60 < x"
      using Cons.prems(3,4) by auto
    have p4: "\<forall>a \<in> set ts. \<forall>b \<in> set ts. b - 60 < a"
      using Cons.prems(4) by auto
    have IH: "fst (calls (ws(s \<mapsto> w0 @ [t])) s n ts)
                = map (\<lambda>i. int (length (w0 @ [t]) + i) < n) [0..<length ts]
            \<and> snd (calls (ws(s \<mapsto> w0 @ [t])) s n ts) s
                = (if ts = [] then (ws(s \<mapsto> w0 @ [t])) s
                   else Some ((w0 @ [t]) @ take (nat n - length (w0 @ [t])) ts))"
      by (rule Cons.IH [OF Cons.prems(1) _ p3 p4]) simp
    have m: "map (\<lambda>i. int (length w0 + i) < n) [0..<Suc (length ts)]
             = True # map (\<lambda>i. int (length (w0 @ [t]) + i) < n) [0..<length ts]"
      using True by (auto simp: upt_conv_Cons map_Suc_upt [symmetric] algebra_simps simp del: upt_Suc)
    have "nat n - length w0 = Suc (nat n - length (w0 @ [t]))"
      using True by simp
    then have tk: "take (nat n - length w0) (t # ts) = t # take (nat n - length (w0 @ [t])) ts"
      by simp
    show ?thesis
      using IH step m tk by (auto simp: split_beta)
  next
    case False
    then have step: "is_allowed t ws s n = (False, ws(s \<mapsto> w0))"
      using Cons.prems(1) win keep by (simp add: is_allowed_def Let_def)
    have p3: "\<forall>x \<in> set w0. \<forall>u \<in> set ts. u - 60 < x"
      using Cons.prems(3) by auto
    have p4: "\<forall>a \<in> set ts. \<forall>b \<in> set ts. b - 60 < a"
      using Cons.prems(4) by auto
    have IH: "fst (calls (ws(s \<mapsto> w0)) s n ts)
                = map (\<lambda>i. int (length w0 + i) < n) [0..<length ts]
            \<and> snd (calls (ws(s \<mapsto> w0)) s n ts) s
                = (if ts = [] then (ws(s \<mapsto> w0)) s
                   else Some (w0 @ take (nat n - length w0) ts))"
      by (rule Cons.IH [OF Cons.prems(1) _ p3 p4]) simp
    have m: "map (\<lambda>i. int (length w0 + i) < n) [0..<Suc (length ts)]
             = False # map (\<lambda>i. int (length w0 + i) < n) [0..<length ts]"
      using False by (auto simp: upt_conv_Cons map_Suc_upt [symmetric] algebra_simps simp del: upt_Suc)
    have tk: "take (nat n - length w0) (t # ts) = []"
      using False by simp
    show ?thesis
      using IH step m tk False by (auto simp: split_beta)
  qed
qed

lemma calls_append:
  "calls ws s n (xs @ ys) =
     (case calls ws s n xs of (a, w') \<Rightarrow> (case calls w' s n ys of (b, w'') \<Rightarrow> (a @ b, w'')))"
  by (induction xs arbitrary: ws) (auto split: prod.splits)

lemma is_allowed_evict_one:
  assumes "0 < n" and "ws s = Some (t1 # rest)" and "length (t1 # rest) = nat n"
    and "t1 \<le> t - 60" and "\<forall>r \<in> set rest. t - 60 < r"
  shows "is_allowed t ws s n = (True, ws(s \<mapsto> rest @ [t]))"
proof -
  have "filter (\<lambda>x. t - 60 < x) (t1 # rest) = rest"
    using assms(4,5) by (simp add: filter_id_conv)
  moreover have "int (length rest) < n"
    using assms(1,3) by simp
  ultimately show ?thesis
    using assms(1,2) by (simp add: is_allowed_def Let_def)
qed

lemma is_allowed_full:
  assumes "0 < n" and "ws s = Some w" and "length w = nat n"
    and "\<forall>r \<in> set w. t - 60 < r"
  shows "is_allowed t ws s n = (False, ws(s \<mapsto> w))"
proof -
  have "filter (\<lambda>x. t - 60 < x) w = w"
    using assms(4) by (simp add: filter_id_conv)
  then show ?thesis
    using assms(1,2,3) by (simp add: is_allowed_def Let_def)
qed

lemma admitted_prefix:
  "map (\<lambda>i. int i < n) [0..<nat n] = replicate (nat n) True"
  by (auto simp: list_eq_iff_nth_eq)

text \<open>
  The comparison is \<open>ts > now - 60\<close>: a timestamp that is exactly 60 seconds old is
  already evicted.
\<close>

lemma is_allowed_boundary:
  "is_allowed (t + 60) [s \<mapsto> [t]] s 1 = (True, [s \<mapsto> [t + 60]])"
  by (simp add: is_allowed_def Let_def)

lemma filter_window_mono:
  fixes t u :: real
  assumes "t \<le> u"
  shows "filter (\<lambda>x. u - 60 < x) (filter (\<lambda>x. t - 60 < x) w) = filter (\<lambda>x. u - 60 < x) w"
proof -
  have "\<And>x. (u - 60 < x \<and> t - 60 < x) = (u - 60 < x)"
    using assms by auto
  then show ?thesis by (simp add: conj_commute)
qed

lemma calls_sliding_window:
  assumes "0 < n" and "sorted ts"
    and "ws s = Some w \<or> (ws s = None \<and> w = [])"
    and "\<forall>t \<in> set ts. filter (\<lambda>x. t - 60 < x) w = filter (\<lambda>x. t - 60 < x) adm"
  shows "fst (calls ws s n ts) = sliding_window adm n ts"
  using assms
proof (induction ts arbitrary: ws w adm)
  case Nil
  then show ?case by simp
next
  case (Cons t ts)
  let ?f = "filter (\<lambda>x. t - 60 < x)"
  have win: "(case ws s of None \<Rightarrow> [] | Some w \<Rightarrow> w) = w"
    using Cons.prems(3) by auto
  have same: "?f w = ?f adm"
    using Cons.prems(4) by simp
  have later: "\<forall>u \<in> set ts. t \<le> u"
    using Cons.prems(2) by simp
  have srt: "sorted ts"
    using Cons.prems(2) by simp
  have keep: "\<forall>u \<in> set ts. filter (\<lambda>x. u - 60 < x) (?f w) = filter (\<lambda>x. u - 60 < x) adm"
  proof
    fix u assume u: "u \<in> set ts"
    have "filter (\<lambda>x. u - 60 < x) (?f w) = filter (\<lambda>x. u - 60 < x) w"
      by (rule filter_window_mono) (use later u in blast)
    also have "\<dots> = filter (\<lambda>x. u - 60 < x) adm"
      using Cons.prems(4) u by simp
    finally show "filter (\<lambda>x. u - 60 < x) (?f w) = filter (\<lambda>x. u - 60 < x) adm" .
  qed
  show ?case
  proof (cases "int (length (?f w)) < n")
    case True
    then have step: "is_allowed t ws s n = (True, ws(s \<mapsto> ?f w @ [t]))"
      using Cons.prems(1) win by (simp add: is_allowed_def Let_def)
    have inv: "\<forall>u \<in> set ts. filter (\<lambda>x. u - 60 < x) (?f w @ [t]) = filter (\<lambda>x. u - 60 < x) (adm @ [t])"
      using keep by simp
    have "fst (calls (ws(s \<mapsto> ?f w @ [t])) s n ts) = sliding_window (adm @ [t]) n ts"
      by (rule Cons.IH [OF Cons.prems(1) srt _ inv]) simp
    then show ?thesis
      using step True same by (simp add: split_beta)
  next
    case False
    then have step: "is_allowed t ws s n = (False, ws(s \<mapsto> ?f w))"
      using Cons.prems(1) win by (simp add: is_allowed_def Let_def)
    have "fst (calls (ws(s \<mapsto> ?f w)) s n ts) = sliding_window adm n ts"
      by (rule Cons.IH [OF Cons.prems(1) srt _ keep]) simp
    then show ?thesis
      using step False same by (simp add: split_beta)
  qed
qed

lemma calls_rejected:
  assumes "0 < n" and "ws s = Some w" and "length w = nat n"
    and "\<forall>r \<in> set rs. \<forall>x \<in> set w. r - 60 < x"
  shows "calls ws s n rs = (replicate (length rs) False, ws)"
  using assms(4)
proof (induction rs)
  case Nil
  show ?case by simp
next
  case (Cons r rs)
  have "is_allowed r ws s n = (False, ws(s \<mapsto> w))"
    using is_allowed_full [of n ws s w r] assms(1,2,3) Cons.prems by simp
  moreover have "ws(s \<mapsto> w) = ws"
    using assms(2) by (rule fun_upd_idem)
  ultimately show ?case
    using Cons by simp
qed

lemma calls_frame: "s' \<noteq> s \<Longrightarrow> snd (calls ws s n ts) s' = ws s'"
proof (induction ts arbitrary: ws)
  case Nil
  show ?case by simp
next
  case (Cons t ts)
  have "snd (calls (snd (is_allowed t ws s n)) s n ts) s' = snd (is_allowed t ws s n) s'"
    by (rule Cons.IH [OF Cons.prems])
  then show ?case
    using is_allowed_frame [OF Cons.prems, of t ws n] by (simp add: split_beta)
qed

text \<open>
  Claim C5. For a sender whose window is empty and a limit \<open>n \<ge> 1\<close>: among calls whose
  clock values lie less than 60 seconds apart, exactly the first \<open>n\<close> are admitted, so
  the \<open>(n+1)\<close>-th is rejected, and the window then holds the clock values of the admitted
  calls and of no rejected one; after \<open>n\<close> admitted calls and any number of rejected
  ones, once the window has slid past the oldest admitted timestamp (and no other),
  exactly one further call is admitted and the next one is rejected again; for clock
  values that never decrease, a call is admitted exactly when fewer than \<open>n\<close> calls
  were admitted during the 60 seconds before it; the windows of other senders are not
  touched; a limit \<open>\<le> 0\<close> admits every call and leaves the state alone.
\<close>

theorem rate_limiter_window:
  assumes "1 \<le> n" and "ws s = None \<or> ws s = Some []"
  shows "(\<forall>ts. (\<forall>a \<in> set ts. \<forall>b \<in> set ts. b - 60 < a) \<longrightarrow>
            fst (calls ws s n ts) = map (\<lambda>i. int i < n) [0..<length ts]
            \<and> snd (calls ws s n ts) s = (if ts = [] then ws s else Some (take (nat n) ts)))
       \<and> (\<forall>ts t. length ts = nat n \<and> (\<forall>a \<in> set (ts @ [t]). \<forall>b \<in> set (ts @ [t]). b - 60 < a) \<longrightarrow>
            fst (calls ws s n (ts @ [t])) = replicate (nat n) True @ [False])
       \<and> (\<forall>t1 rest rs t t'. length (t1 # rest) = nat n
            \<and> (\<forall>a \<in> set (t1 # rest). \<forall>b \<in> set (t1 # rest). b - 60 < a)
            \<and> (\<forall>r \<in> set rs. \<forall>x \<in> set (t1 # rest). r - 60 < x)
            \<and> t1 \<le> t - 60 \<and> (\<forall>r \<in> set rest. t - 60 < r)
            \<and> t' - 60 < t \<and> (\<forall>r \<in> set rest. t' - 60 < r) \<longrightarrow>
            fst (calls ws s n ((t1 # rest) @ rs @ [t, t']))
              = replicate (nat n) True @ replicate (length rs) False @ [True, False]
            \<and> snd (calls ws s n ((t1 # rest) @ rs @ [t, t'])) s = Some (rest @ [t]))
       \<and> (\<forall>ts. sorted ts \<longrightarrow> fst (calls ws s n ts) = sliding_window [] n ts)
       \<and> (\<forall>ts s'. s' \<noteq> s \<longrightarrow> snd (calls ws s n ts) s' = ws s')
       \<and> (\<forall>m now. m \<le> 0 \<longrightarrow> is_allowed now ws s m = (True, ws))"
proof -
  have n0: "0 < n" using assms(1) by simp
  have fresh: "ws s = Some [] \<or> (ws s = None \<and> ([]::real list) = [])"
    using assms(2) by auto
  have A: "fst (calls ws s n ts) = map (\<lambda>i. int i < n) [0..<length ts]
            \<and> snd (calls ws s n ts) s = (if ts = [] then ws s else Some (take (nat n) ts))"
    if w: "\<forall>a \<in> set ts. \<forall>b \<in> set ts. b - 60 < a" for ts
    using calls_no_eviction [of n ws s "[]" ts] n0 fresh w by simp
  have B: "fst (calls ws s n (ts @ [t])) = replicate (nat n) True @ [False]"
    if h: "length ts = nat n \<and> (\<forall>a \<in> set (ts @ [t]). \<forall>b \<in> set (ts @ [t]). b - 60 < a)" for ts t
  proof -
    have "map (\<lambda>i. int i < n) [0..<length (ts @ [t])] = replicate (nat n) True @ [False]"
      using h n0 by (simp add: admitted_prefix)
    then show ?thesis
      using A [of "ts @ [t]"] h by simp
  qed
  have C: "fst (calls ws s n ((t1 # rest) @ rs @ [t, t']))
              = replicate (nat n) True @ replicate (length rs) False @ [True, False]
            \<and> snd (calls ws s n ((t1 # rest) @ rs @ [t, t'])) s = Some (rest @ [t])"
    if h: "length (t1 # rest) = nat n
            \<and> (\<forall>a \<in> set (t1 # rest). \<forall>b \<in> set (t1 # rest). b - 60 < a)
            \<and> (\<forall>r \<in> set rs. \<forall>x \<in> set (t1 # rest). r - 60 < x)
            \<and> t1 \<le> t - 60 \<and> (\<forall>r \<in> set rest. t - 60 < r)
            \<and> t' - 60 < t \<and> (\<forall>r \<in> set rest. t' - 60 < r)" for t1 rest rs t t'
  proof -
    let ?ts = "t1 # rest"
    have w: "\<forall>a \<in> set ?ts. \<forall>b \<in> set ?ts. b - 60 < a" using h by blast
    have r1: "fst (calls ws s n ?ts) = replicate (nat n) True"
      using A [OF w] h by (simp add: admitted_prefix del: upt_Suc replicate.simps)
    obtain ws1 where c1: "calls ws s n ?ts = (replicate (nat n) True, ws1)"
      using r1 by (cases "calls ws s n ?ts") auto
    have "snd (calls ws s n ?ts) s = Some (take (nat n) ?ts)"
      using A [OF w] by simp
    then have w1: "ws1 s = Some (t1 # rest)"
      using c1 h by simp
    have len: "length (t1 # rest) = nat n" using h by blast
    have rej: "\<forall>r \<in> set rs. \<forall>x \<in> set (t1 # rest). r - 60 < x" using h by blast
    have c2: "calls ws1 s n rs = (replicate (length rs) False, ws1)"
      using calls_rejected [of n ws1 s "t1 # rest" rs] n0 w1 len rej by blast
    have s1: "is_allowed t ws1 s n = (True, ws1(s \<mapsto> rest @ [t]))"
      using is_allowed_evict_one [of n ws1 s t1 rest t] n0 w1 h by blast
    have s2: "is_allowed t' (ws1(s \<mapsto> rest @ [t])) s n = (False, (ws1(s \<mapsto> rest @ [t]))(s \<mapsto> rest @ [t]))"
      using is_allowed_full [of n "ws1(s \<mapsto> rest @ [t])" s "rest @ [t]" t'] n0 h by auto
    have "calls ws s n ((t1 # rest) @ rs @ [t, t'])
            = (replicate (nat n) True @ replicate (length rs) False @ [True, False],
               (ws1(s \<mapsto> rest @ [t]))(s \<mapsto> rest @ [t]))"
      unfolding calls_append c1 using c2 s1 s2 by simp
    then show ?thesis by simp
  qed
  have E: "fst (calls ws s n ts) = sliding_window [] n ts" if "sorted ts" for ts
    using calls_sliding_window [of n ts ws s "[]" "[]"] n0 that fresh by simp
  have F: "snd (calls ws s n ts) s' = ws s'" if "s' \<noteq> s" for ts s'
    using that by (rule calls_frame)
  have D: "is_allowed now ws s m = (True, ws)" if "m \<le> 0" for m now
    using that by (rule is_allowed_unlimited)
  show ?thesis
    using A B C D E F by blast
qed

theorem rate_limiter_window_witness:
  "fst (calls Map.empty ''U1'' 2 [0, 10, 59]) = [True, True, False]
   \<and> snd (calls Map.empty ''U1'' 2 [0, 10, 59]) ''U1'' = Some [0, 10]
   \<and> fst (calls Map.empty ''U1'' 2 [0, 10, 60, 61]) = [True, True, True, False]
   \<and> fst (calls Map.empty ''U1'' 1 [0, 30, 60, 61]) = [True, False, True, False]
   \<and> snd (calls Map.empty ''U1'' 1 [0, 30, 60, 61]) ''U1'' = Some [60]
   \<and> fst (calls Map.empty ''U1'' 1 [0, 30, 60]) = [True, False, True]
   \<and> snd (calls Map.empty ''U1'' 1 [0, 30, 60]) ''U2'' = None
   \<and> is_allowed 5 Map.empty ''U1'' 0 = (True, Map.empty)"
proof -
  have h1: "(1::int) \<le> 2" by simp
  have h1': "(1::int) \<le> 1" by simp
  have h2: "(Map.empty :: windows) ''U1'' = None \<or> (Map.empty :: windows) ''U1'' = Some []" by simp
  note T = rate_limiter_window [of 2 Map.empty "''U1''", OF h1 h2]
  note U = rate_limiter_window [of 1 Map.empty "''U1''", OF h1' h2]
  have two: "nat 2 = Suc (Suc 0)" by simp
  have a: "fst (calls Map.empty ''U1'' 2 ([0, 10] @ [59])) = replicate (nat 2) True @ [False]"
    by (rule T [THEN conjunct2, THEN conjunct1, rule_format, of "[0, 10]" 59]) simp
  have within: "\<forall>a \<in> set [0, 10, 59 :: real]. \<forall>b \<in> set [0, 10, 59 :: real]. b - 60 < a"
    by simp
  have "snd (calls Map.empty ''U1'' 2 [0, 10, 59]) ''U1''
          = (if [0, 10, 59 :: real] = [] then (Map.empty :: windows) ''U1'' else Some (take (nat 2) [0, 10, 59]))"
    using T [THEN conjunct1, THEN spec [where x = "[0, 10, 59 :: real]"], THEN mp, OF within]
    by (rule conjunct2)
  then have a': "snd (calls Map.empty ''U1'' 2 [0, 10, 59]) ''U1'' = Some [0, 10]"
    by (simp add: two)
  have b: "fst (calls Map.empty ''U1'' 2 ((0 # [10]) @ [] @ [60, 61]))
             = replicate (nat 2) True @ replicate (length ([] :: real list)) False @ [True, False]"
    using T [THEN conjunct2, THEN conjunct2, THEN conjunct1, rule_format, of 0 "[10]" "[]" 60 61]
    by simp
  have c: "fst (calls Map.empty ''U1'' 1 ((0 # []) @ [30] @ [60, 61]))
             = replicate (nat 1) True @ replicate (length [30 :: real]) False @ [True, False]
           \<and> snd (calls Map.empty ''U1'' 1 ((0 # []) @ [30] @ [60, 61])) ''U1'' = Some ([] @ [60])"
    by (rule U [THEN conjunct2, THEN conjunct2, THEN conjunct1, rule_format, of 0 "[]" "[30]" 60 61]) simp
  have d: "fst (calls Map.empty ''U1'' 1 [0, 30, 60]) = sliding_window [] 1 [0, 30, 60]"
    by (rule U [THEN conjunct2, THEN conjunct2, THEN conjunct2, THEN conjunct1, rule_format]) simp
  have e: "snd (calls Map.empty ''U1'' 1 [0, 30, 60]) ''U2'' = (Map.empty :: windows) ''U2''"
    by (rule U [THEN conjunct2, THEN conjunct2, THEN conjunct2, THEN conjunct2, THEN conjunct1, rule_format]) simp
  have f: "is_allowed 5 Map.empty ''U1'' 0 = (True, Map.empty)"
    by (rule T [THEN conjunct2, THEN conjunct2, THEN conjunct2, THEN conjunct2, THEN conjunct2, rule_format]) simp
  show ?thesis
    using a a' b c d e f unfolding two by simp
qed

section \<open>Event buffer: properties\<close>

lemma emit_event_buffer:
  "event_buffers (emit_event tm tid ev) tid' =
     (if tid' = tid
      then (case event_buffers tm tid of
              None \<Rightarrow> None
            | Some buf \<Rightarrow> Some (if length (buf @ [ev]) > max_buffer_size then tl (buf @ [ev]) else buf @ [ev]))
      else event_buffers tm tid')"
  by (simp add: emit_event_def Let_def split: option.splits)

lemma append_evict_last_n:
  "length buf \<le> n \<Longrightarrow>
     (if length (buf @ [ev]) > n then tl (buf @ [ev]) else buf @ [ev]) = last_n n (buf @ [ev])"
  by (cases buf) (auto simp: last_n_def Suc_diff_le)

lemma last_n_length: "length (last_n n xs) \<le> n"
  by (simp add: last_n_def)

lemma last_n_append: "last_n n (last_n n xs @ ys) = last_n n (xs @ ys)"
proof -
  have "length xs + length ys - (length xs - n + n) + (length xs - n) = length xs + length ys - n"
    by arith
  then show ?thesis by (simp add: last_n_def)
qed

lemma emit_events_buffer:
  assumes "event_buffers tm tid = Some buf" and "length buf \<le> max_buffer_size"
  shows "event_buffers (emit_events tm evs) tid
           = Some (last_n max_buffer_size (buf @ events_for tid evs))"
  using assms
proof (induction evs arbitrary: tm buf)
  case Nil
  then show ?case by (simp add: emit_events_def events_for_def last_n_def)
next
  case (Cons p evs)
  obtain t e where p: "p = (t, e)" by (cases p)
  show ?case
  proof (cases "t = tid")
    case True
    have b: "event_buffers (emit_event tm t e) tid = Some (last_n max_buffer_size (buf @ [e]))"
      using Cons.prems True by (simp add: emit_event_buffer append_evict_last_n del: length_append)
    have "event_buffers (emit_events (emit_event tm t e) evs) tid
            = Some (last_n max_buffer_size (last_n max_buffer_size (buf @ [e]) @ events_for tid evs))"
      by (rule Cons.IH [OF b last_n_length])
    then show ?thesis
      using p True last_n_append [of max_buffer_size "buf @ [e]" "events_for tid evs"]
      by (simp add: emit_events_def events_for_def)
  next
    case False
    have b: "event_buffers (emit_event tm t e) tid = Some buf"
      using Cons.prems False by (simp add: emit_event_buffer)
    show ?thesis
      using Cons.IH [OF b Cons.prems(2)] p False
      by (simp add: emit_events_def events_for_def)
  qed
qed

text \<open>
  Claim C6. A buffer that holds at most 100 events holds at most 100 after any
  sequence of emissions; one emission appends the event at the end and, when the buffer
  was full, drops the event at the front; after any emissions the buffer is the most
  recent 100 of the events it held and the events emitted for the task, in emission
  order. Starting empty, 150 emissions leave the last 100.
\<close>

theorem event_buffer_bounded_fifo:
  assumes "event_buffers tm tid = Some buf" and "length buf \<le> 100"
  shows "event_buffers (emit_event tm tid ev) tid
           = Some (if length buf < 100 then buf @ [ev] else tl buf @ [ev])
       \<and> event_buffers (emit_events tm evs) tid = Some (last_n 100 (buf @ events_for tid evs))
       \<and> (\<forall>b. event_buffers (emit_events tm evs) tid = Some b \<longrightarrow> length b \<le> 100)
       \<and> (buf = [] \<and> length (events_for tid evs) = 150 \<longrightarrow>
            event_buffers (emit_events tm evs) tid = Some (drop 50 (events_for tid evs)))"
proof -
  have bound: "length buf \<le> max_buffer_size"
    using assms(2) by (simp add: max_buffer_size_def)
  have one: "event_buffers (emit_event tm tid ev) tid
           = Some (if length buf < 100 then buf @ [ev] else tl buf @ [ev])"
    using assms by (cases buf) (auto simp: emit_event_buffer max_buffer_size_def)
  have many: "event_buffers (emit_events tm evs) tid = Some (last_n 100 (buf @ events_for tid evs))"
    using emit_events_buffer [OF assms(1) bound] by (simp add: max_buffer_size_def)
  have len: "\<forall>b. event_buffers (emit_events tm evs) tid = Some b \<longrightarrow> length b \<le> 100"
    using many last_n_length [of 100] by auto
  have big: "buf = [] \<and> length (events_for tid evs) = 150 \<longrightarrow>
            event_buffers (emit_events tm evs) tid = Some (drop 50 (events_for tid evs))"
    using many by (simp add: last_n_def)
  show ?thesis using one many len big by blast
qed

theorem event_buffer_bounded_fifo_witness:
  "event_buffers
     (emit_events (new_task_manager\<lparr>event_buffers := [''t1'' \<mapsto> []]\<rparr>)
        (map (\<lambda>i. (''t1'', [(''seq'', JNum (int i))])) [0..<150])) ''t1''
   = Some (map (\<lambda>i. [(''seq'', JNum (int i))]) [50..<150])
   \<and> event_buffers
       (emit_event (new_task_manager\<lparr>event_buffers := [''t1'' \<mapsto> []]\<rparr>) ''t1'' [(''type'', JStr ''status'')]) ''t1''
     = Some [[(''type'', JStr ''status'')]]"
proof -
  let ?tm = "new_task_manager\<lparr>event_buffers := [''t1'' \<mapsto> []]\<rparr>"
  let ?evs = "map (\<lambda>i. (''t1'', [(''seq'', JNum (int i))])) [0..<150]"
  have h1: "event_buffers ?tm ''t1'' = Some []" by simp
  have h2: "length ([] :: event list) \<le> 100" by simp
  have ef: "events_for ''t1'' ?evs = map (\<lambda>i. [(''seq'', JNum (int i))]) [0..<150]"
    by (simp add: events_for_def filter_map o_def del: upt_Suc)
  note T = event_buffer_bounded_fifo [OF h1 h2, of "[(''type'', JStr ''status'')]" ?evs]
  have len: "length (events_for ''t1'' ?evs) = 150"
    unfolding ef by simp
  have "event_buffers (emit_events ?tm ?evs) ''t1'' = Some (drop 50 (events_for ''t1'' ?evs))"
    using T [THEN conjunct2, THEN conjunct2, THEN conjunct2] len by blast
  moreover have "drop 50 (events_for ''t1'' ?evs) = map (\<lambda>i. [(''seq'', JNum (int i))]) [50..<150]"
    unfolding ef by (simp add: drop_map del: upt_Suc)
  moreover have "event_buffers (emit_event ?tm ''t1'' [(''type'', JStr ''status'')]) ''t1''
     = Some [[(''type'', JStr ''status'')]]"
    using T [THEN conjunct1] by simp
  ultimately show ?thesis by simp
qed

section \<open>Access control: properties\<close>

lemma check_access_allowlist:
  assumes "dget cfg ''access_mode'' = Some (JStr ''allowlist'') \<or> dget cfg ''access_mode'' = None"
  shows "check_access jl cfg s =
           py_in s (parse_if_str jl (case dget cfg ''allowed_senders'' of None \<Rightarrow> JList [] | Some a \<Rightarrow> a))"
  using assms by (auto simp: check_access_def Let_def)

lemma check_access_blocklist:
  assumes "dget cfg ''access_mode'' = Some (JStr ''blocklist'')"
  shows "check_access jl cfg s =
           (case py_in s (parse_if_str jl (case dget cfg ''blocked_senders'' of None \<Rightarrow> JList [] | Some a \<Rightarrow> a))
            of Inl e \<Rightarrow> Inl e | Inr b \<Rightarrow> Inr (\<not> b))"
  using assms by (simp add: check_access_def Let_def)

text \<open>
  Claim C4. The decision depends on the channel record only through its three access
  fields. Mode \<open>open\<close> allows everyone. Mode \<open>allowlist\<close> allows exactly the members of
  \<open>allowed_senders\<close>, given as a list or as a string that parses to a list; a string
  that does not parse counts as the empty list, and the empty list denies everyone.
  Mode \<open>blocklist\<close> allows exactly the non-members of \<open>blocked_senders\<close>, and a string
  that does not parse allows everyone. Every other mode value denies everyone.
\<close>

theorem access_control_modes:
  "(\<forall>cfg'. (\<forall>k \<in> {''access_mode'', ''allowed_senders'', ''blocked_senders''}. dget cfg' k = dget cfg k)
        \<longrightarrow> check_access jl cfg' s = check_access jl cfg s)
   \<and> (dget cfg ''access_mode'' = Some (JStr ''open'') \<longrightarrow> check_access jl cfg s = Inr True)
   \<and> (dget cfg ''access_mode'' = Some (JStr ''allowlist'') \<longrightarrow>
        (\<forall>xs. dget cfg ''allowed_senders'' = Some (JList xs) \<longrightarrow>
           check_access jl cfg s = Inr (JStr s \<in> set xs))
      \<and> (\<forall>str xs. dget cfg ''allowed_senders'' = Some (JStr str) \<and> jl str = Some (JList xs) \<longrightarrow>
           check_access jl cfg s = Inr (JStr s \<in> set xs))
      \<and> (\<forall>str. dget cfg ''allowed_senders'' = Some (JStr str) \<and> jl str = None \<longrightarrow>
           check_access jl cfg s = Inr False)
      \<and> (dget cfg ''allowed_senders'' = Some (JList []) \<longrightarrow> check_access jl cfg s = Inr False))
   \<and> (dget cfg ''access_mode'' = Some (JStr ''blocklist'') \<longrightarrow>
        (\<forall>xs. dget cfg ''blocked_senders'' = Some (JList xs) \<longrightarrow>
           check_access jl cfg s = Inr (JStr s \<notin> set xs))
      \<and> (\<forall>str xs. dget cfg ''blocked_senders'' = Some (JStr str) \<and> jl str = Some (JList xs) \<longrightarrow>
           check_access jl cfg s = Inr (JStr s \<notin> set xs))
      \<and> (\<forall>str. dget cfg ''blocked_senders'' = Some (JStr str) \<and> jl str = None \<longrightarrow>
           check_access jl cfg s = Inr True))
   \<and> (\<forall>m. dget cfg ''access_mode'' = Some m
          \<and> m \<noteq> JStr ''open'' \<and> m \<noteq> JStr ''allowlist'' \<and> m \<noteq> JStr ''blocklist'' \<longrightarrow>
        check_access jl cfg s = Inr False)"
proof (intro conjI)
  show "\<forall>cfg'. (\<forall>k \<in> {''access_mode'', ''allowed_senders'', ''blocked_senders''}. dget cfg' k = dget cfg k)
        \<longrightarrow> check_access jl cfg' s = check_access jl cfg s"
    by (auto simp: check_access_def Let_def)
  show "dget cfg ''access_mode'' = Some (JStr ''open'') \<longrightarrow> check_access jl cfg s = Inr True"
    by (simp add: check_access_def)
  show "dget cfg ''access_mode'' = Some (JStr ''allowlist'') \<longrightarrow>
        (\<forall>xs. dget cfg ''allowed_senders'' = Some (JList xs) \<longrightarrow>
           check_access jl cfg s = Inr (JStr s \<in> set xs))
      \<and> (\<forall>str xs. dget cfg ''allowed_senders'' = Some (JStr str) \<and> jl str = Some (JList xs) \<longrightarrow>
           check_access jl cfg s = Inr (JStr s \<in> set xs))
      \<and> (\<forall>str. dget cfg ''allowed_senders'' = Some (JStr str) \<and> jl str = None \<longrightarrow>
           check_access jl cfg s = Inr False)
      \<and> (dget cfg ''allowed_senders'' = Some (JList []) \<longrightarrow> check_access jl cfg s = Inr False)"
    by (auto simp: check_access_allowlist parse_if_str_def)
  show "dget cfg ''access_mode'' = Some (JStr ''blocklist'') \<longrightarrow>
        (\<forall>xs. dget cfg ''blocked_senders'' = Some (JList xs) \<longrightarrow>
           check_access jl cfg s = Inr (JStr s \<notin> set xs))
      \<and> (\<forall>str xs. dget cfg ''blocked_senders'' = Some (JStr str) \<and> jl str = Some (JList xs) \<longrightarrow>
           check_access jl cfg s = Inr (JStr s \<notin> set xs))
      \<and> (\<forall>str. dget cfg ''blocked_senders'' = Some (JStr str) \<and> jl str = None \<longrightarrow>
           check_access jl cfg s = Inr True)"
    by (auto simp: check_access_blocklist parse_if_str_def)
  show "\<forall>m. dget cfg ''access_mode'' = Some m
          \<and> m \<noteq> JStr ''open'' \<and> m \<noteq> JStr ''allowlist'' \<and> m \<noteq> JStr ''blocklist'' \<longrightarrow>
        check_access jl cfg s = Inr False"
    by (simp add: check_access_def)
qed

theorem access_control_modes_witness:
  "check_access (\<lambda>str. if str = [CHR ''['', CHR 0x22, CHR ''U'', CHR ''1'', CHR 0x22, CHR '']'']
                          then Some (JList [JStr ''U1'']) else None)
       [(''access_mode'', JStr ''allowlist''),
        (''allowed_senders'', JStr [CHR ''['', CHR 0x22, CHR ''U'', CHR ''1'', CHR 0x22, CHR '']''])] ''U1''
     = Inr True
   \<and> check_access (\<lambda>str. None) [(''access_mode'', JStr ''open'')] ''U1'' = Inr True
   \<and> check_access (\<lambda>str. None)
       [(''access_mode'', JStr ''allowlist''), (''allowed_senders'', JList [JStr ''U1''])] ''U2''
     = Inr False
   \<and> check_access (\<lambda>str. None)
       [(''access_mode'', JStr ''allowlist''), (''allowed_senders'', JStr ''not json'')] ''U1''
     = Inr False
   \<and> check_access (\<lambda>str. None)
       [(''access_mode'', JStr ''allowlist''), (''allowed_senders'', JList [])] ''U1''
     = Inr False
   \<and> check_access (\<lambda>str. None)
       [(''access_mode'', JStr ''blocklist''), (''blocked_senders'', JList [JStr ''X''])] ''X''
     = Inr False
   \<and> check_access (\<lambda>str. None)
       [(''access_mode'', JStr ''blocklist''), (''blocked_senders'', JStr ''not json'')] ''X''
     = Inr True
   \<and> check_access (\<lambda>str. None) [(''access_mode'', JStr ''closed'')] ''U1'' = Inr False
   \<and> check_access (\<lambda>str. None) [(''name'', JStr ''c''), (''access_mode'', JStr ''open'')] ''U1''
     = check_access (\<lambda>str. None) [(''access_mode'', JStr ''open'')] ''U1''"
proof -
  let ?q = "[CHR ''['', CHR 0x22, CHR ''U'', CHR ''1'', CHR 0x22, CHR '']'']"
  let ?jl = "\<lambda>str. if str = ?q then Some (JList [JStr ''U1'']) else None"
  let ?no = "\<lambda>str :: string. None :: json option"
  have 1: "check_access ?jl [(''access_mode'', JStr ''allowlist''), (''allowed_senders'', JStr ?q)] ''U1''
             = Inr True"
    using access_control_modes
      [of "[(''access_mode'', JStr ''allowlist''), (''allowed_senders'', JStr ?q)]" ?jl "''U1''"]
    by (simp add: dget_def)
  have 2: "check_access ?no [(''access_mode'', JStr ''open'')] ''U1'' = Inr True"
    using access_control_modes [of "[(''access_mode'', JStr ''open'')]" ?no "''U1''"]
    by (simp add: dget_def)
  have 3: "check_access ?no
       [(''access_mode'', JStr ''allowlist''), (''allowed_senders'', JList [JStr ''U1''])] ''U2''
     = Inr False"
    using access_control_modes
      [of "[(''access_mode'', JStr ''allowlist''), (''allowed_senders'', JList [JStr ''U1''])]" ?no "''U2''"]
    by (simp add: dget_def)
  have 4: "check_access ?no
       [(''access_mode'', JStr ''allowlist''), (''allowed_senders'', JStr ''not json'')] ''U1''
     = Inr False"
    using access_control_modes
      [of "[(''access_mode'', JStr ''allowlist''), (''allowed_senders'', JStr ''not json'')]" ?no "''U1''"]
    by (simp add: dget_def)
  have 5: "check_access ?no
       [(''access_mode'', JStr ''allowlist''), (''allowed_senders'', JList [])] ''U1''
     = Inr False"
    using access_control_modes
      [of "[(''access_mode'', JStr ''allowlist''), (''allowed_senders'', JList [])]" ?no "''U1''"]
    by (simp add: dget_def)
  have 6: "check_access ?no
       [(''access_mode'', JStr ''blocklist''), (''blocked_senders'', JList [JStr ''X''])] ''X''
     = Inr False"
    using access_control_modes
      [of "[(''access_mode'', JStr ''blocklist''), (''blocked_senders'', JList [JStr ''X''])]" ?no "''X''"]
    by (simp add: dget_def)
  have 7: "check_access ?no
       [(''access_mode'', JStr ''blocklist''), (''blocked_senders'', JStr ''not json'')] ''X''
     = Inr True"
    using access_control_modes
      [of "[(''access_mode'', JStr ''blocklist''), (''blocked_senders'', JStr ''not json'')]" ?no "''X''"]
    by (simp add: dget_def)
  have 8: "check_access ?no [(''access_mode'', JStr ''closed'')] ''U1'' = Inr False"
    using access_control_modes [of "[(''access_mode'', JStr ''closed'')]" ?no "''U1''"]
    by (simp add: dget_def)
  have 9: "check_access ?no [(''name'', JStr ''c''), (''access_mode'', JStr ''open'')] ''U1''
     = check_access ?no [(''access_mode'', JStr ''open'')] ''U1''"
  proof -
    have same: "\<forall>k \<in> {''access_mode'', ''allowed_senders'', ''blocked_senders''}.
        dget [(''name'', JStr ''c''), (''access_mode'', JStr ''open'')] k
          = dget [(''access_mode'', JStr ''open'')] k"
      by (simp add: dget_def)
    show ?thesis
      using access_control_modes [of "[(''access_mode'', JStr ''open'')]" ?no "''U1''", THEN conjunct1] same
      by blast
  qed
  show ?thesis
    using 1 2 3 4 5 6 7 8 9 by blast
qed

text \<open>
  Claim C9. A channel record without an \<open>access_mode\<close> key is treated exactly as one
  whose mode is \<open>allowlist\<close>: a sender on the record's allowed list is allowed, every
  other sender is denied, and a record with no allowed list denies everyone.
\<close>

theorem missing_access_mode_is_allowlist:
  assumes "dget cfg ''access_mode'' = None"
  shows "check_access jl cfg s = check_access jl ((''access_mode'', JStr ''allowlist'') # cfg) s
       \<and> (\<forall>xs. dget cfg ''allowed_senders'' = Some (JList xs) \<longrightarrow>
            check_access jl cfg s = Inr (JStr s \<in> set xs))
       \<and> (dget cfg ''allowed_senders'' = None \<longrightarrow> check_access jl cfg s = Inr False)"
proof -
  have a: "check_access jl cfg s =
           py_in s (parse_if_str jl (case dget cfg ''allowed_senders'' of None \<Rightarrow> JList [] | Some a \<Rightarrow> a))"
    using assms by (simp add: check_access_allowlist)
  have b: "check_access jl ((''access_mode'', JStr ''allowlist'') # cfg) s =
           py_in s (parse_if_str jl (case dget cfg ''allowed_senders'' of None \<Rightarrow> JList [] | Some a \<Rightarrow> a))"
    by (simp add: check_access_def dget_def Let_def)
  show ?thesis
    using a b by (auto simp: parse_if_str_def)
qed

theorem missing_access_mode_is_allowlist_witness:
  "check_access (\<lambda>str. None) [(''allowed_senders'', JList [JStr ''U1''])] ''U1'' = Inr True
   \<and> check_access (\<lambda>str. None) [(''allowed_senders'', JList [JStr ''U1''])] ''U2'' = Inr False
   \<and> check_access (\<lambda>str. None) [(''name'', JStr ''c'')] ''U1'' = Inr False"
proof -
  have h1: "dget [(''allowed_senders'', JList [JStr ''U1''])] ''access_mode'' = None"
    by (simp add: dget_def)
  have h2: "dget [(''name'', JStr ''c'')] ''access_mode'' = None"
    by (simp add: dget_def)
  have 1: "check_access (\<lambda>str. None) [(''allowed_senders'', JList [JStr ''U1''])] ''U1'' = Inr True"
    using missing_access_mode_is_allowlist [OF h1, of "\<lambda>str. None" "''U1''", THEN conjunct2, THEN conjunct1]
    by (simp add: dget_def)
  have 2: "check_access (\<lambda>str. None) [(''allowed_senders'', JList [JStr ''U1''])] ''U2'' = Inr False"
    using missing_access_mode_is_allowlist [OF h1, of "\<lambda>str. None" "''U2''", THEN conjunct2, THEN conjunct1]
    by (simp add: dget_def)
  have 3: "check_access (\<lambda>str. None) [(''name'', JStr ''c'')] ''U1'' = Inr False"
    using missing_access_mode_is_allowlist [OF h2, of "\<lambda>str. None" "''U1''", THEN conjunct2, THEN conjunct2]
    by (simp add: dget_def)
  show ?thesis using 1 2 3 by blast
qed

section \<open>Channel lifecycle and status: properties\<close>

lemma dset_keys: "fst ` set (dset d k v) = insert k (fst ` set d)"
  by (force simp: dset_def image_iff split: if_splits)

lemma map_of_replace:
  "map_of (map (\<lambda>(a, b). if a = k then (a, v) else (a, b)) d) x
     = (if x = k then (if k \<in> fst ` set d then Some v else None) else map_of d x)"
  by (induction d) force+

lemma dget_dset: "dget (dset d k v) k' = (if k' = k then Some v else dget d k')"
proof (cases "k \<in> fst ` set d")
  case True
  then show ?thesis
    by (simp add: dset_def dget_def map_of_replace)
next
  case False
  then have "map_of d k = None" by (simp add: map_of_eq_None_iff)
  then show ?thesis
    using False by (auto simp: dset_def dget_def map_add_def split: option.splits)
qed

lemma dset_fixed:
  assumes "k \<in> fst ` set d" and "\<forall>p \<in> set d. fst p = k \<longrightarrow> snd p = v"
  shows "dset d k v = d"
  using assms by (auto simp: dset_def intro!: map_idI)

lemma dset_all_v: "\<forall>p \<in> set (dset d k v). fst p = k \<longrightarrow> snd p = v"
  by (auto simp: dset_def)

lemma dset_other_v:
  assumes "k' \<noteq> k" and "\<forall>p \<in> set d. fst p = k \<longrightarrow> snd p = v"
  shows "\<forall>p \<in> set (dset d k' v'). fst p = k \<longrightarrow> snd p = v"
proof
  fix p assume "p \<in> set (dset d k' v')"
  then have "p \<in> set d \<or> fst p = k'"
    by (auto simp: dset_def split: if_splits)
  then show "fst p = k \<longrightarrow> snd p = v"
    using assms by auto
qed

lemma dmerge2_idem:
  assumes "k1 \<noteq> k2"
  shows "dmerge (dmerge d [(k1, v1), (k2, v2)]) [(k1, v1), (k2, v2)] = dmerge d [(k1, v1), (k2, v2)]"
proof -
  let ?p = "dset (dset d k1 v1) k2 v2"
  have k1: "k1 \<in> fst ` set ?p" by (simp add: dset_keys)
  have a1: "\<forall>p \<in> set ?p. fst p = k1 \<longrightarrow> snd p = v1"
    using dset_other_v [OF assms [symmetric] dset_all_v] by blast
  have s1: "dset ?p k1 v1 = ?p" by (rule dset_fixed [OF k1 a1])
  have k2: "k2 \<in> fst ` set ?p" by (simp add: dset_keys)
  have s2: "dset ?p k2 v2 = ?p" by (rule dset_fixed [OF k2 dset_all_v])
  show ?thesis by (simp add: dmerge_def s1 s2)
qed

lemma channels_update_idem:
  "k1 \<noteq> k2 \<Longrightarrow>
     channels_update (channels_update d cid [(k1, v1), (k2, v2)]) cid [(k1, v1), (k2, v2)]
       = channels_update d cid [(k1, v1), (k2, v2)]"
  by (cases "db_channels d cid") (simp_all add: channels_update_def dmerge2_idem)

lemma stop_channel_idem: "stop_channel (stop_channel s cid) cid = stop_channel s cid"
  by (simp add: stop_channel_def Let_def channels_update_idem)

text \<open>
  Claim C7, as stated, fails: for a channel without a running adapter whose persisted
  status is \<open>error\<close>, \<open>stop_channel\<close> rewrites the persisted status and error message.
\<close>

theorem stop_channel_not_noop_counterexample:
  "adapters (gw crashed_channel) ''c1'' = None
   \<and> db_channels (db crashed_channel) ''c1''
       = Some [(''id'', JStr ''c1''), (''status'', JStr ''error''),
               (''error_message'', JStr ''Adapter crashed unexpectedly'')]
   \<and> db_channels (db (stop_channel crashed_channel ''c1'')) ''c1''
       = Some [(''id'', JStr ''c1''), (''status'', JStr ''inactive''), (''error_message'', JNull)]"
  by (simp add: crashed_channel_def stop_channel_def channels_update_def dmerge_def dset_def Let_def)

text \<open>
  Claim C7, amended. For a channel with no adapter and no supervising task registered,
  \<open>stop_channel\<close> calls no adapter and cancels no task, keeps the adapter and task
  tables and the rate limiter, removes the channel's cache entry, and touches the store
  only in the channel's own record: if the record exists its status becomes \<open>inactive\<close>
  and its error message is cleared, every other field and every other record staying
  as it was; if the record does not exist the store is unchanged. A second call
  changes nothing more.
\<close>

theorem stop_channel_when_not_running:
  assumes "adapters (gw s) cid = None" and "tasks (gw s) cid = None"
  shows "log (stop_channel s cid) = log s
       \<and> gw (stop_channel s cid) = (gw s)\<lparr>channel_cache := (channel_cache (gw s))(cid := None)\<rparr>
       \<and> db (stop_channel s cid) = (db s)\<lparr>db_channels := db_channels (db (stop_channel s cid))\<rparr>
       \<and> (\<forall>c. c \<noteq> cid \<longrightarrow> db_channels (db (stop_channel s cid)) c = db_channels (db s) c)
       \<and> (db_channels (db s) cid = None \<longrightarrow> db (stop_channel s cid) = db s)
       \<and> (\<forall>r. db_channels (db s) cid = Some r \<longrightarrow>
            (\<exists>r'. db_channels (db (stop_channel s cid)) cid = Some r'
                \<and> dget r' ''status'' = Some (JStr ''inactive'')
                \<and> dget r' ''error_message'' = Some JNull
                \<and> (\<forall>k. k \<noteq> ''status'' \<and> k \<noteq> ''error_message'' \<longrightarrow> dget r' k = dget r k)))
       \<and> stop_channel (stop_channel s cid) cid = stop_channel s cid"
proof -
  have a: "log (stop_channel s cid) = log s"
    using assms by (simp add: stop_channel_def Let_def)
  have "(adapters (gw s))(cid := None) = adapters (gw s)" "(tasks (gw s))(cid := None) = tasks (gw s)"
    using assms by auto
  then have b: "gw (stop_channel s cid) = (gw s)\<lparr>channel_cache := (channel_cache (gw s))(cid := None)\<rparr>"
    by (simp add: stop_channel_def Let_def)
  have d: "db (stop_channel s cid)
             = channels_update (db s) cid [(''status'', JStr ''inactive''), (''error_message'', JNull)]"
    by (simp add: stop_channel_def Let_def)
  have c: "db (stop_channel s cid) = (db s)\<lparr>db_channels := db_channels (db (stop_channel s cid))\<rparr>"
    unfolding d by (simp add: channels_update_def split: option.splits)
  have e: "\<forall>c. c \<noteq> cid \<longrightarrow> db_channels (db (stop_channel s cid)) c = db_channels (db s) c"
    unfolding d by (simp add: channels_update_def split: option.splits)
  have f: "db_channels (db s) cid = None \<longrightarrow> db (stop_channel s cid) = db s"
    unfolding d by (simp add: channels_update_def)
  have g: "\<forall>r. db_channels (db s) cid = Some r \<longrightarrow>
            (\<exists>r'. db_channels (db (stop_channel s cid)) cid = Some r'
                \<and> dget r' ''status'' = Some (JStr ''inactive'')
                \<and> dget r' ''error_message'' = Some JNull
                \<and> (\<forall>k. k \<noteq> ''status'' \<and> k \<noteq> ''error_message'' \<longrightarrow> dget r' k = dget r k))"
    unfolding d by (simp add: channels_update_def dmerge_def dget_dset)
  show ?thesis
    using a b c e f g stop_channel_idem by blast
qed

theorem stop_channel_when_not_running_witness:
  "log (stop_channel crashed_channel ''c1'') = []
   \<and> gw (stop_channel crashed_channel ''c1'') = gw crashed_channel
   \<and> db_channels (db (stop_channel crashed_channel ''c1'')) ''c2'' = None
   \<and> stop_channel (stop_channel crashed_channel ''c1'') ''c1'' = stop_channel crashed_channel ''c1''
   \<and> db (stop_channel crashed_channel ''c2'') = db crashed_channel"
proof -
  have h1: "adapters (gw crashed_channel) ''c1'' = None" by (simp add: crashed_channel_def)
  have h2: "tasks (gw crashed_channel) ''c1'' = None" by (simp add: crashed_channel_def)
  have h3: "adapters (gw crashed_channel) ''c2'' = None" by (simp add: crashed_channel_def)
  have h4: "tasks (gw crashed_channel) ''c2'' = None" by (simp add: crashed_channel_def)
  have n: "db_channels (db crashed_channel) ''c2'' = None" by (simp add: crashed_channel_def)
  note T = stop_channel_when_not_running [OF h1 h2]
  note U = stop_channel_when_not_running [OF h3 h4]
  have 1: "log (stop_channel crashed_channel ''c1'') = []"
    using T by (simp add: crashed_channel_def)
  have 2: "gw (stop_channel crashed_channel ''c1'') = gw crashed_channel"
    using T by (simp add: crashed_channel_def)
  have 3: "db_channels (db (stop_channel crashed_channel ''c1'')) ''c2'' = None"
    using T n by simp
  have 4: "stop_channel (stop_channel crashed_channel ''c1'') ''c1'' = stop_channel crashed_channel ''c1''"
    using T by blast
  have 5: "db (stop_channel crashed_channel ''c2'') = db crashed_channel"
    using U n by blast
  show ?thesis using 1 2 3 4 5 by blast
qed

text \<open>
  Claim C8, as stated, fails: for a channel that is neither running nor cached, a store
  failure while the error message is read is raised to the caller.
\<close>

theorem status_error_read_propagates_counterexample:
  "get_channel_status
     \<lparr>fault_get_for_status = False, fault_count = False, fault_get_for_error = True\<rparr>
     crashed_channel ''c1''
   = Inl (StoreError ''store failure'')"
  by (simp add: get_channel_status_def crashed_channel_def store_read_def Let_def dget_def)

text \<open>
  Claim C8, amended. A store failure while the session count is fetched is never
  raised: the result is the one obtained without that failure, with
  \<open>active_sessions = 0\<close>. The error message comes from the cached channel record when
  the cache holds a non-empty one, without any read of the store; for a channel that
  is neither running nor cached it is read from the store, and a failure of that read
  is raised to the caller.
\<close>

theorem status_best_effort:
  "get_channel_status (flt\<lparr>fault_count := True\<rparr>) s cid
     = map_sum id (\<lambda>st. st\<lparr>st_active_sessions := 0\<rparr>) (get_channel_status flt s cid)
   \<and> (\<forall>c. channel_cache (gw s) cid = Some c \<and> c \<noteq> []
          \<and> (adapters (gw s) cid \<noteq> None \<or> \<not> fault_get_for_status flt) \<longrightarrow>
        (\<exists>st. get_channel_status flt s cid = Inr st
             \<and> st_error_message st = dget_none c ''error_message''))
   \<and> (adapters (gw s) cid = None
        \<and> (channel_cache (gw s) cid = None \<or> channel_cache (gw s) cid = Some [])
        \<and> \<not> fault_get_for_status flt \<and> fault_get_for_error flt \<longrightarrow>
        get_channel_status flt s cid = Inl (StoreError ''store failure''))"
proof (intro conjI allI impI)
  show "get_channel_status (flt\<lparr>fault_count := True\<rparr>) s cid
     = map_sum id (\<lambda>st. st\<lparr>st_active_sessions := 0\<rparr>) (get_channel_status flt s cid)"
    by (simp add: get_channel_status_def store_read_def Let_def split: option.splits sum.splits)
next
  fix c
  assume "channel_cache (gw s) cid = Some c \<and> c \<noteq> []
          \<and> (adapters (gw s) cid \<noteq> None \<or> \<not> fault_get_for_status flt)"
  then show "\<exists>st. get_channel_status flt s cid = Inr st
             \<and> st_error_message st = dget_none c ''error_message''"
    by (auto simp: get_channel_status_def store_read_def Let_def split: option.splits sum.splits)
next
  assume "adapters (gw s) cid = None
        \<and> (channel_cache (gw s) cid = None \<or> channel_cache (gw s) cid = Some [])
        \<and> \<not> fault_get_for_status flt \<and> fault_get_for_error flt"
  then show "get_channel_status flt s cid = Inl (StoreError ''store failure'')"
    by (auto simp: get_channel_status_def store_read_def Let_def split: option.splits sum.splits)
qed

theorem status_best_effort_witness:
  "get_channel_status
     \<lparr>fault_get_for_status = False, fault_count = True, fault_get_for_error = False\<rparr>
     crashed_channel ''c1''
   = Inr \<lparr> st_channel_id = ''c1'', st_status = JStr ''error'', st_uptime_seconds = JNull,
           st_messages_processed = 0, st_active_sessions = 0,
           st_error_message = JStr ''Adapter crashed unexpectedly'' \<rparr>
   \<and> (\<exists>st. get_channel_status
          \<lparr>fault_get_for_status = False, fault_count = False, fault_get_for_error = True\<rparr>
          (crashed_channel\<lparr>gw := (gw crashed_channel)
             \<lparr>channel_cache := [''c1'' \<mapsto> [(''error_message'', JStr ''cached'')]]\<rparr>\<rparr>) ''c1'' = Inr st
        \<and> st_error_message st = JStr ''cached'')
   \<and> get_channel_status
       \<lparr>fault_get_for_status = False, fault_count = True, fault_get_for_error = True\<rparr>
       crashed_channel ''c1''
     = Inl (StoreError ''store failure'')"
proof -
  let ?f0 = "\<lparr>fault_get_for_status = False, fault_count = False, fault_get_for_error = False\<rparr>"
  let ?f2 = "\<lparr>fault_get_for_status = False, fault_count = False, fault_get_for_error = True\<rparr>"
  let ?f3 = "\<lparr>fault_get_for_status = False, fault_count = True, fault_get_for_error = True\<rparr>"
  let ?s1 = "crashed_channel\<lparr>gw := (gw crashed_channel)
             \<lparr>channel_cache := [''c1'' \<mapsto> [(''error_message'', JStr ''cached'')]]\<rparr>\<rparr>"
  have 1: "get_channel_status (?f0\<lparr>fault_count := True\<rparr>) crashed_channel ''c1''
     = map_sum id (\<lambda>st. st\<lparr>st_active_sessions := 0\<rparr>) (get_channel_status ?f0 crashed_channel ''c1'')"
    using status_best_effort [of ?f0 crashed_channel "''c1''"] by blast
  have e: "get_channel_status ?f0 crashed_channel ''c1''
     = Inr \<lparr> st_channel_id = ''c1'', st_status = JStr ''error'', st_uptime_seconds = JNull,
           st_messages_processed = 0, st_active_sessions = 0,
           st_error_message = JStr ''Adapter crashed unexpectedly'' \<rparr>"
    by (simp add: get_channel_status_def crashed_channel_def store_read_def Let_def dget_def
        dget_none_def cs_count_by_channel_def)
  have h2: "channel_cache (gw ?s1) ''c1'' = Some [(''error_message'', JStr ''cached'')]
       \<and> [(''error_message'', JStr ''cached'')] \<noteq> []
       \<and> (adapters (gw ?s1) ''c1'' \<noteq> None \<or> \<not> fault_get_for_status ?f2)"
    by simp
  have 2: "\<exists>st. get_channel_status ?f2 ?s1 ''c1'' = Inr st
        \<and> st_error_message st = dget_none [(''error_message'', JStr ''cached'')] ''error_message''"
    using status_best_effort [of ?f2 ?s1 "''c1''", THEN conjunct2, THEN conjunct1] h2 by blast
  have h3: "adapters (gw crashed_channel) ''c1'' = None
        \<and> (channel_cache (gw crashed_channel) ''c1'' = None \<or> channel_cache (gw crashed_channel) ''c1'' = Some [])
        \<and> \<not> fault_get_for_status ?f3 \<and> fault_get_for_error ?f3"
    by (simp add: crashed_channel_def)
  have 3: "get_channel_status ?f3 crashed_channel ''c1'' = Inl (StoreError ''store failure'')"
    using status_best_effort [of ?f3 crashed_channel "''c1''", THEN conjunct2, THEN conjunct2] h3 by blast
  show ?thesis
    using 1 e 2 3 by (simp add: dget_none_def dget_def)
qed

section \<open>Session resolution: properties\<close>

lemma find_snoc: "find P (xs @ [y]) = (case find P xs of None \<Rightarrow> (if P y then Some y else None) | Some x \<Rightarrow> Some x)"
  by (induction xs) auto

lemma find_cs_put:
  assumes "find P rows = None" and "P row"
  shows "find P (cs_put rows row) = Some row"
proof (cases "cs_id row \<in> cs_id ` set rows")
  case True
  have "\<And>xs. cs_id row \<in> cs_id ` set xs \<Longrightarrow> find P xs = None \<Longrightarrow>
          find P (map (\<lambda>r. if cs_id r = cs_id row then row else r) xs) = Some row"
  proof -
    fix xs show "cs_id row \<in> cs_id ` set xs \<Longrightarrow> find P xs = None \<Longrightarrow>
          find P (map (\<lambda>r. if cs_id r = cs_id row then row else r) xs) = Some row"
      using assms(2) by (induction xs) (auto split: if_splits)
  qed
  then show ?thesis using True assms(1) by (simp add: cs_put_def)
next
  case False
  then show ?thesis
    using assms by (simp add: cs_put_def find_snoc)
qed

lemma resolve_session_found:
  assumes "cs_find_by_external (db_channel_sessions d) c chat th = Some r"
  shows "resolve_session env d c a chat snd_id th dn
           = ((cs_session_id r, cs_id r, cs_message_count r = 0), d)"
  using assms by (simp add: resolve_session_def)

lemma resolve_session_created:
  assumes "cs_find_by_external (db_channel_sessions d) c chat th = None"
  shows "fst (resolve_session env d c a chat snd_id th dn)
           = (JStr (re_uuid_session env), re_uuid_channel_session env, True)
       \<and> cs_find_by_external (db_channel_sessions (snd (resolve_session env d c a chat snd_id th dn))) c chat th
           = Some \<lparr> cs_id = re_uuid_channel_session env, cs_channel_id = c,
                    cs_external_chat_id = chat, cs_external_sender_id = snd_id,
                    cs_external_thread_id = th, cs_session_id = JStr (re_uuid_session env),
                    cs_agent_id = a, cs_sender_display_name = dn,
                    cs_last_message_at = re_now env, cs_message_count = 0 \<rparr>
       \<and> (JStr (re_uuid_session env), a) \<in> (\<lambda>(s, ag, t). (s, ag)) ` set (db_sessions (snd (resolve_session env d c a chat snd_id th dn)))"
proof -
  let ?row = "\<lparr> cs_id = re_uuid_channel_session env, cs_channel_id = c,
                    cs_external_chat_id = chat, cs_external_sender_id = snd_id,
                    cs_external_thread_id = th, cs_session_id = JStr (re_uuid_session env),
                    cs_agent_id = a, cs_sender_display_name = dn,
                    cs_last_message_at = re_now env, cs_message_count = 0 \<rparr>"
  let ?P = "\<lambda>r. cs_channel_id r = c \<and> cs_external_chat_id r = chat \<and> cs_external_thread_id r = th"
  have n: "find ?P (db_channel_sessions d) = None"
    using assms by (simp add: cs_find_by_external_def)
  have "find ?P (cs_put (db_channel_sessions d) ?row) = Some ?row"
    by (rule find_cs_put [OF n]) simp
  then show ?thesis
    using assms by (simp add: resolve_session_def Let_def store_session_def cs_find_by_external_def image_iff)
qed

text \<open>
  Claim C3. Two calls in sequence for the same \<open>(channel_id, external_chat_id,
  external_thread_id)\<close> return the same channel session id, and the second call leaves
  the store as the first left it. When a channel session exists for the tuple, the
  call returns its session id and id with \<open>is_new = (message_count = 0)\<close> and does not
  write. When none exists, the call stores an internal session and a channel session
  row with \<open>message_count = 0\<close> for the tuple and returns \<open>is_new = True\<close>.
\<close>

theorem resolve_session_idempotent:
  "fst (snd (fst (resolve_session env2
                    (snd (resolve_session env1 d c a chat sender th dn)) c a' chat sender' th dn')))
     = fst (snd (fst (resolve_session env1 d c a chat sender th dn)))
   \<and> snd (resolve_session env2
            (snd (resolve_session env1 d c a chat sender th dn)) c a' chat sender' th dn')
     = snd (resolve_session env1 d c a chat sender th dn)
   \<and> (\<forall>r. cs_find_by_external (db_channel_sessions d) c chat th = Some r \<longrightarrow>
         resolve_session env1 d c a chat sender th dn
           = ((cs_session_id r, cs_id r, cs_message_count r = 0), d))
   \<and> (cs_find_by_external (db_channel_sessions d) c chat th = None \<longrightarrow>
         fst (resolve_session env1 d c a chat sender th dn)
           = (JStr (re_uuid_session env1), re_uuid_channel_session env1, True)
       \<and> cs_find_by_external
            (db_channel_sessions (snd (resolve_session env1 d c a chat sender th dn))) c chat th
           = Some \<lparr> cs_id = re_uuid_channel_session env1, cs_channel_id = c,
                    cs_external_chat_id = chat, cs_external_sender_id = sender,
                    cs_external_thread_id = th, cs_session_id = JStr (re_uuid_session env1),
                    cs_agent_id = a, cs_sender_display_name = dn,
                    cs_last_message_at = re_now env1, cs_message_count = 0 \<rparr>
       \<and> (JStr (re_uuid_session env1), a)
            \<in> (\<lambda>(s, ag, t). (s, ag)) ` set (db_sessions (snd (resolve_session env1 d c a chat sender th dn))))"
proof -
  let ?r1 = "resolve_session env1 d c a chat sender th dn"
  let ?r2 = "resolve_session env2 (snd ?r1) c a' chat sender' th dn'"
  have two: "fst (snd (fst ?r2)) = fst (snd (fst ?r1)) \<and> snd ?r2 = snd ?r1"
  proof (cases "cs_find_by_external (db_channel_sessions d) c chat th")
    case None
    note C = resolve_session_created [OF None, of env1 a sender dn]
    have f: "cs_find_by_external (db_channel_sessions (snd ?r1)) c chat th
           = Some \<lparr> cs_id = re_uuid_channel_session env1, cs_channel_id = c,
                    cs_external_chat_id = chat, cs_external_sender_id = sender,
                    cs_external_thread_id = th, cs_session_id = JStr (re_uuid_session env1),
                    cs_agent_id = a, cs_sender_display_name = dn,
                    cs_last_message_at = re_now env1, cs_message_count = 0 \<rparr>"
      using C by blast
    show ?thesis
      unfolding resolve_session_found [OF f] using C by simp
  next
    case (Some r)
    have 1: "?r1 = ((cs_session_id r, cs_id r, cs_message_count r = 0), d)"
      by (rule resolve_session_found [OF Some])
    have f: "cs_find_by_external (db_channel_sessions (snd ?r1)) c chat th = Some r"
      using Some 1 by simp
    show ?thesis
      unfolding resolve_session_found [OF f] using 1 by simp
  qed
  have found: "\<forall>r. cs_find_by_external (db_channel_sessions d) c chat th = Some r \<longrightarrow>
         ?r1 = ((cs_session_id r, cs_id r, cs_message_count r = 0), d)"
    using resolve_session_found by blast
  show ?thesis
    using two found resolve_session_created [of d c chat th env1 a sender dn] by blast
qed

theorem resolve_session_idempotent_witness:
  "fst (resolve_session resolve_env1 empty_database ''c1'' (JStr ''agent'') ''chat'' ''U1'' None None)
     = (JStr ''s-1'', ''cs-1'', True)
   \<and> resolve_session resolve_env2
        (snd (resolve_session resolve_env1 empty_database ''c1'' (JStr ''agent'') ''chat'' ''U1'' None None))
        ''c1'' (JStr ''agent'') ''chat'' ''U1'' None None
     = ((JStr ''s-1'', ''cs-1'', True),
        snd (resolve_session resolve_env1 empty_database ''c1'' (JStr ''agent'') ''chat'' ''U1'' None None))"
proof -
  let ?d1 = "snd (resolve_session resolve_env1 empty_database ''c1'' (JStr ''agent'') ''chat'' ''U1'' None None)"
  note T = resolve_session_idempotent
    [of resolve_env2 resolve_env1 empty_database "''c1''" "JStr ''agent''" "''chat''" "''U1''"
        None None "JStr ''agent''" "''U1''" None]
  have n: "cs_find_by_external (db_channel_sessions empty_database) ''c1'' ''chat'' None = None"
    by (simp add: empty_database_def cs_find_by_external_def)
  have 1: "fst (resolve_session resolve_env1 empty_database ''c1'' (JStr ''agent'') ''chat'' ''U1'' None None)
     = (JStr ''s-1'', ''cs-1'', True)"
    using T n by (simp add: resolve_env1_def)
  have f: "cs_find_by_external (db_channel_sessions ?d1) ''c1'' ''chat'' None
           = Some \<lparr> cs_id = ''cs-1'', cs_channel_id = ''c1'',
                    cs_external_chat_id = ''chat'', cs_external_sender_id = ''U1'',
                    cs_external_thread_id = None, cs_session_id = JStr ''s-1'',
                    cs_agent_id = JStr ''agent'', cs_sender_display_name = None,
                    cs_last_message_at = ''t1'', cs_message_count = 0 \<rparr>"
    using T n by (simp add: resolve_env1_def)
  have 2: "resolve_session resolve_env2 ?d1 ''c1'' (JStr ''agent'') ''chat'' ''U1'' None None
     = ((JStr ''s-1'', ''cs-1'', True), ?d1)"
    using resolve_session_idempotent
      [of resolve_env2 resolve_env2 ?d1 "''c1''" "JStr ''agent''" "''chat''" "''U1''"
        None None "JStr ''agent''" "''U1''" None, THEN conjunct2, THEN conjunct2, THEN conjunct1] f
    by simp
  show ?thesis using 1 2 by simp
qed

section \<open>Inbound routing: properties\<close>

lemma erase_fields [simp]:
  "cs_id (erase r) = cs_id r"
  "cs_channel_id (erase r) = cs_channel_id r"
  "cs_external_chat_id (erase r) = cs_external_chat_id r"
  "cs_external_thread_id (erase r) = cs_external_thread_id r"
  "cs_message_count (erase r) = cs_message_count r"
  by (simp_all add: erase_def)

lemma find_map_erase:
  assumes "\<And>r. P (erase r) = P r"
  shows "find P (map erase rows) = map_option erase (find P rows)"
  using assms by (induction rows) auto

lemma cs_get_erase: "cs_get (map erase rows) i = map_option erase (cs_get rows i)"
  unfolding cs_get_def by (rule find_map_erase) simp

lemma cs_find_erase:
  "cs_find_by_external (map erase rows) c chat th = map_option erase (cs_find_by_external rows c chat th)"
  unfolding cs_find_by_external_def by (rule find_map_erase) simp

lemma apply_cs_updates_id [simp]: "cs_id (apply_cs_updates u r) = cs_id r"
  by (simp add: apply_cs_updates_def Let_def split: option.splits)

lemma erase_apply_no_count:
  "up_message_count u = None \<Longrightarrow> erase (apply_cs_updates u r) = erase r"
  by (simp add: apply_cs_updates_def erase_def Let_def split: option.splits)

lemma erase_cs_update_no_count:
  "up_message_count u = None \<Longrightarrow> map erase (cs_update rows i u) = map erase rows"
  by (simp add: cs_update_def erase_apply_no_count)

lemma cs_get_cs_update:
  "cs_get (cs_update rows i u) j
     = map_option (\<lambda>r. if cs_id r = i then apply_cs_updates u r else r) (cs_get rows j)"
  unfolding cs_get_def cs_update_def by (induction rows) auto

lemma consume_event_erase:
  "consume_event f csid ls ev = Inr ls' \<Longrightarrow> map erase (ls_rows ls') = map erase (ls_rows ls)"
  by (auto simp: consume_event_def Let_def erase_cs_update_no_count
      split: if_splits sum.splits)

lemma consume_erase:
  "map erase (ls_rows (fst (consume f csid ls es))) = map erase (ls_rows ls)"
proof (induction es arbitrary: ls)
  case Nil
  show ?case by simp
next
  case (Cons e es)
  show ?case
  proof (cases "consume_event f csid ls e")
    case (Inl x)
    then show ?thesis by simp
  next
    case (Inr ls')
    then show ?thesis
      using Cons.IH [of ls'] consume_event_erase [OF Inr] by simp
  qed
qed

lemma find_cs_put_same: "find (\<lambda>r. cs_id r = cs_id row) (cs_put rows row) = Some row"
proof (cases "cs_id row \<in> cs_id ` set rows")
  case True
  have "\<And>xs. cs_id row \<in> cs_id ` set xs \<Longrightarrow>
          find (\<lambda>r. cs_id r = cs_id row) (map (\<lambda>r. if cs_id r = cs_id row then row else r) xs) = Some row"
  proof -
    fix xs show "cs_id row \<in> cs_id ` set xs \<Longrightarrow>
          find (\<lambda>r. cs_id r = cs_id row) (map (\<lambda>r. if cs_id r = cs_id row then row else r) xs) = Some row"
      by (induction xs) auto
  qed
  then show ?thesis using True by (simp add: cs_put_def)
next
  case False
  then have "find (\<lambda>r. cs_id r = cs_id row) rows = None"
    by (force simp: find_None_iff image_iff)
  then show ?thesis
    using False by (simp add: cs_put_def find_snoc)
qed

lemma update_counters_get:
  "cs_get (update_counters rows i now err) i
     = map_option (\<lambda>r. r\<lparr> cs_last_message_at := now,
                            cs_message_count := (if err then cs_message_count r else cs_message_count r + 2) \<rparr>)
         (cs_get rows i)"
proof (cases "cs_get rows i")
  case None
  then show ?thesis
    by (simp add: update_counters_def Let_def cs_get_cs_update)
next
  case (Some r)
  then have "cs_id r = i"
    by (auto simp: cs_get_def dest: find_Some_iff [THEN iffD1])
  then show ?thesis
    using Some by (simp add: update_counters_def Let_def cs_get_cs_update apply_cs_updates_def)
qed

lemma update_counters_error_erase:
  "map erase (update_counters rows i now True) = map erase rows"
  by (simp add: update_counters_def Let_def erase_cs_update_no_count)

lemma exchange_loop_erase:
  "map erase (ls_rows (fst (exchange_loop env csid sid rows call))) = map erase rows"
  by (simp add: exchange_loop_def Let_def consume_erase)

lemma run_exchange_processed:
  assumes "run_exchange env s msg channel agent_id = (Processed ex, s2)"
  defines "resolved \<equiv> resolve_session (ie_resolve env) (db s) (im_channel_id msg) agent_id
                       (im_external_chat_id msg) (im_external_sender_id msg)
                       (im_external_thread_id msg) (im_sender_display_name msg)"
  shows "ex_channel_session_id ex = fst (snd (fst resolved))"
    and "ex_is_new ex = snd (snd (fst resolved))"
    and "ec_session_id (ex_engine_call ex)
           = (if snd (snd (fst resolved)) then None else Some (fst (fst resolved)))"
    and "db_channel_sessions (db s2)
           = update_counters
               (ls_rows (fst (exchange_loop env (fst (snd (fst resolved))) (fst (fst resolved))
                                (db_channel_sessions (snd resolved)) (ex_engine_call ex))))
               (fst (snd (fst resolved))) (ie_now_update env) (ex_error_occurred ex)"
proof -
  obtain channel_config where cfg:
    "config_dict (ie_json_loads env) (case dget channel ''config'' of None \<Rightarrow> JDict [] | Some v \<Rightarrow> v)
       = Inr channel_config"
    using assms(1) unfolding run_exchange_def Let_def
    by (cases "config_dict (ie_json_loads env) (case dget channel ''config'' of None \<Rightarrow> JDict [] | Some v \<Rightarrow> v)")
       simp_all
  note E = assms(1) [unfolded run_exchange_def Let_def cfg sum.case resolved_def [symmetric]
                       prod.inject outcome.inject]
  note ex = E [THEN conjunct1, symmetric]
  note s2 = E [THEN conjunct2, symmetric]
  show "ex_channel_session_id ex = fst (snd (fst resolved))"
    by (subst ex) simp
  show "ex_is_new ex = snd (snd (fst resolved))"
    by (subst ex) simp
  show "ec_session_id (ex_engine_call ex)
           = (if snd (snd (fst resolved)) then None else Some (fst (fst resolved)))"
    by (subst ex) simp
  show "db_channel_sessions (db s2)
           = update_counters
               (ls_rows (fst (exchange_loop env (fst (snd (fst resolved))) (fst (fst resolved))
                                (db_channel_sessions (snd resolved)) (ex_engine_call ex))))
               (fst (snd (fst resolved))) (ie_now_update env) (ex_error_occurred ex)"
    by (subst s2, subst (1 2) ex) simp
qed

lemma run_exchange_gw:
  "run_exchange env (s\<lparr>gw := g\<rparr>) msg ch a = r \<Longrightarrow>
     \<exists>s1. db s1 = db s \<and> run_exchange env s1 msg ch a = r"
  by (rule exI [of _ "s\<lparr>gw := g\<rparr>"]) simp

lemma route_processed:
  assumes "route env s msg channel = (Processed ex, s2)"
  shows "\<exists>s1. db s1 = db s
           \<and> run_exchange env s1 msg channel (dget_none channel ''agent_id'') = (Processed ex, s2)"
  using assms unfolding route_def Let_def
  by (auto split: if_splits sum.splits intro: run_exchange_gw)

lemma route_gw:
  "route env (s\<lparr>gw := g\<rparr>) msg ch = r \<Longrightarrow>
     \<exists>s0 channel. db s0 = db s \<and> route env s0 msg channel = r"
  by (rule exI [of _ "s\<lparr>gw := g\<rparr>"], rule exI [of _ ch]) simp

lemma handle_processed:
  assumes "handle_inbound_message env s msg = (Processed ex, s2)"
  shows "\<exists>s1 channel agent_id. db s1 = db s
           \<and> run_exchange env s1 msg channel agent_id = (Processed ex, s2)"
proof -
  have "\<exists>s0 channel. db s0 = db s \<and> route env s0 msg channel = (Processed ex, s2)"
    using assms unfolding handle_inbound_message_def Let_def
    by (auto split: option.splits if_splits dest: route_gw)
  then show ?thesis
    using route_processed by metis
qed

lemma cs_get_cs_put: "cs_get (cs_put rows row) (cs_id row) = Some row"
  unfolding cs_get_def by (rule find_cs_put_same)

lemma resolve_session_created_rows:
  assumes "cs_find_by_external (db_channel_sessions d) c chat th = None"
  shows "cs_get (db_channel_sessions (snd (resolve_session env d c a chat sender th dn)))
           (fst (snd (fst (resolve_session env d c a chat sender th dn))))
         = Some \<lparr> cs_id = re_uuid_channel_session env, cs_channel_id = c,
                  cs_external_chat_id = chat, cs_external_sender_id = sender,
                  cs_external_thread_id = th, cs_session_id = JStr (re_uuid_session env),
                  cs_agent_id = a, cs_sender_display_name = dn,
                  cs_last_message_at = re_now env, cs_message_count = 0 \<rparr>"
proof -
  let ?row = "\<lparr> cs_id = re_uuid_channel_session env, cs_channel_id = c,
                  cs_external_chat_id = chat, cs_external_sender_id = sender,
                  cs_external_thread_id = th, cs_session_id = JStr (re_uuid_session env),
                  cs_agent_id = a, cs_sender_display_name = dn,
                  cs_last_message_at = re_now env, cs_message_count = 0 \<rparr>"
  have "cs_get (cs_put (db_channel_sessions d) ?row) (cs_id ?row) = Some ?row"
    by (rule cs_get_cs_put)
  then show ?thesis
    using assms by (simp add: resolve_session_def Let_def store_session_def)
qed

lemma cs_find_in_set:
  "cs_find_by_external rows c chat th = Some r \<Longrightarrow> r \<in> set rows"
  by (auto simp: cs_find_by_external_def find_Some_iff)

lemma cs_get_member:
  assumes "r \<in> set rows"
  shows "\<exists>r0. cs_get rows (cs_id r) = Some r0"
proof (cases "cs_get rows (cs_id r)")
  case None
  then show ?thesis using assms by (auto simp: cs_get_def find_None_iff)
next
  case (Some r0)
  then show ?thesis by blast
qed

lemma cs_get_distinct:
  assumes "distinct (map cs_id rows)" and "r \<in> set rows"
  shows "cs_get rows (cs_id r) = Some r"
  using assms unfolding cs_get_def
  by (induction rows) (auto simp: image_iff)

text \<open>
  Claim C2. For every inbound message that the pipeline processes to its end, the
  channel session of the exchange exists afterwards and carries the new
  \<open>last_message_at\<close>; with unique session ids, its \<open>message_count\<close> is the count it had
  when the message arrived (0 for a new chat) plus 2 if the exchange did not error and
  plus 0 if it did. If the exchange of a chat with no channel session errors, the
  session stored for the chat has \<open>message_count = 0\<close>, and every later message of that
  chat that is processed resolves to the same channel session with \<open>is_new = True\<close> and
  calls the engine with no session id.
\<close>

theorem inbound_exchange_counters:
  assumes "handle_inbound_message env s msg = (Processed ex, s')"
  shows "(\<exists>row. cs_get (db_channel_sessions (db s')) (ex_channel_session_id ex) = Some row
            \<and> cs_last_message_at row = ie_now_update env)
       \<and> (distinct (map cs_id (db_channel_sessions (db s))) \<longrightarrow>
            (\<exists>row. cs_get (db_channel_sessions (db s')) (ex_channel_session_id ex) = Some row
               \<and> cs_message_count row =
                   (case cs_find_by_external (db_channel_sessions (db s)) (im_channel_id msg)
                           (im_external_chat_id msg) (im_external_thread_id msg) of
                      None \<Rightarrow> 0
                    | Some r \<Rightarrow> cs_message_count r)
                   + (if ex_error_occurred ex then 0 else 2)))
       \<and> (cs_find_by_external (db_channel_sessions (db s)) (im_channel_id msg)
             (im_external_chat_id msg) (im_external_thread_id msg) = None
           \<and> ex_error_occurred ex \<longrightarrow>
            (\<exists>row. cs_find_by_external (db_channel_sessions (db s')) (im_channel_id msg)
                      (im_external_chat_id msg) (im_external_thread_id msg) = Some row
               \<and> cs_id row = ex_channel_session_id ex \<and> cs_message_count row = 0)
          \<and> (\<forall>env2 msg2 ex2 s2.
                im_channel_id msg2 = im_channel_id msg
                \<and> im_external_chat_id msg2 = im_external_chat_id msg
                \<and> im_external_thread_id msg2 = im_external_thread_id msg
                \<and> handle_inbound_message env2 s' msg2 = (Processed ex2, s2) \<longrightarrow>
                ex_is_new ex2 \<and> ec_session_id (ex_engine_call ex2) = None
                \<and> ex_channel_session_id ex2 = ex_channel_session_id ex))"
proof -
  obtain s1 channel agent where s1: "db s1 = db s"
    and RE: "run_exchange env s1 msg channel agent = (Processed ex, s')"
    using handle_processed [OF assms] by blast
  define resolved where "resolved = resolve_session (ie_resolve env) (db s) (im_channel_id msg) agent
                       (im_external_chat_id msg) (im_external_sender_id msg)
                       (im_external_thread_id msg) (im_sender_display_name msg)"
  define X where "X = fst (snd (fst resolved))"
  define rows where "rows = db_channel_sessions (db s)"
  define rows1 where "rows1 = db_channel_sessions (snd resolved)"
  define rows3 where "rows3 = ls_rows (fst (exchange_loop env X (fst (fst resolved)) rows1 (ex_engine_call ex)))"
  define F where "F = cs_find_by_external rows (im_channel_id msg)
                           (im_external_chat_id msg) (im_external_thread_id msg)"
  note P = run_exchange_processed [OF RE, unfolded s1, folded resolved_def, folded X_def rows1_def,
      folded rows3_def]
  have exX: "ex_channel_session_id ex = X" by (rule P(1))
  have rows': "db_channel_sessions (db s') = update_counters rows3 X (ie_now_update env) (ex_error_occurred ex)"
    by (rule P(4))
  have E3: "map erase rows3 = map erase rows1"
    unfolding rows3_def by (rule exchange_loop_erase)
  have get3: "map_option erase (cs_get rows3 X) = map_option erase (cs_get rows1 X)"
    using E3 cs_get_erase [of rows3 X] cs_get_erase [of rows1 X] by simp
  have get': "cs_get (db_channel_sessions (db s')) X
     = map_option (\<lambda>r. r\<lparr> cs_last_message_at := ie_now_update env,
                            cs_message_count := (if ex_error_occurred ex then cs_message_count r
                                                 else cs_message_count r + 2) \<rparr>)
         (cs_get rows3 X)"
    unfolding rows' by (rule update_counters_get)
  \<comment> \<open>the session row right after resolution\<close>
  have ex1: "\<exists>r1. cs_get rows1 X = Some r1"
  proof (cases F)
    case None
    then show ?thesis
      using resolve_session_created_rows [of "db s" "im_channel_id msg" "im_external_chat_id msg"
          "im_external_thread_id msg" "ie_resolve env" agent "im_external_sender_id msg"
          "im_sender_display_name msg"]
      unfolding F_def rows_def rows1_def X_def resolved_def by simp
  next
    case (Some r)
    then have res: "resolved = ((cs_session_id r, cs_id r, cs_message_count r = 0), db s)"
      unfolding F_def rows_def resolved_def by (rule resolve_session_found)
    have "r \<in> set rows" using Some unfolding F_def by (rule cs_find_in_set)
    then show ?thesis
      using cs_get_member [of r rows] res unfolding rows1_def X_def rows_def by simp
  qed
  have cnt1: "distinct (map cs_id rows) \<longrightarrow>
      (\<exists>r1. cs_get rows1 X = Some r1
           \<and> cs_message_count r1 = (case F of None \<Rightarrow> 0 | Some r \<Rightarrow> cs_message_count r))"
  proof (cases F)
    case None
    then show ?thesis
      using resolve_session_created_rows [of "db s" "im_channel_id msg" "im_external_chat_id msg"
          "im_external_thread_id msg" "ie_resolve env" agent "im_external_sender_id msg"
          "im_sender_display_name msg"]
      unfolding F_def rows_def rows1_def X_def resolved_def by simp
  next
    case (Some r)
    then have res: "resolved = ((cs_session_id r, cs_id r, cs_message_count r = 0), db s)"
      unfolding F_def rows_def resolved_def by (rule resolve_session_found)
    have "r \<in> set rows" using Some unfolding F_def by (rule cs_find_in_set)
    then show ?thesis
      using cs_get_distinct [of rows r] res Some unfolding rows1_def X_def rows_def by simp
  qed
  have A: "\<exists>row. cs_get (db_channel_sessions (db s')) (ex_channel_session_id ex) = Some row
            \<and> cs_last_message_at row = ie_now_update env"
  proof -
    obtain r1 where "cs_get rows1 X = Some r1" using ex1 by blast
    then obtain r3 where "cs_get rows3 X = Some r3" using get3 by auto
    then show ?thesis unfolding exX get' by simp
  qed
  have B: "distinct (map cs_id rows) \<longrightarrow>
            (\<exists>row. cs_get (db_channel_sessions (db s')) (ex_channel_session_id ex) = Some row
               \<and> cs_message_count row = (case F of None \<Rightarrow> 0 | Some r \<Rightarrow> cs_message_count r)
                   + (if ex_error_occurred ex then 0 else 2))"
  proof
    assume "distinct (map cs_id rows)"
    then obtain r1 where r1: "cs_get rows1 X = Some r1"
      and c1: "cs_message_count r1 = (case F of None \<Rightarrow> 0 | Some r \<Rightarrow> cs_message_count r)"
      using cnt1 by blast
    obtain r3 where r3: "cs_get rows3 X = Some r3" and e: "erase r3 = erase r1"
      using get3 r1 by auto
    have "cs_message_count r3 = cs_message_count r1"
      using arg_cong [OF e, of cs_message_count] by simp
    then show "\<exists>row. cs_get (db_channel_sessions (db s')) (ex_channel_session_id ex) = Some row
               \<and> cs_message_count row = (case F of None \<Rightarrow> 0 | Some r \<Rightarrow> cs_message_count r)
                   + (if ex_error_occurred ex then 0 else 2)"
      unfolding exX get' using r3 c1 by simp
  qed
  have C: "F = None \<and> ex_error_occurred ex \<longrightarrow>
            (\<exists>row. cs_find_by_external (db_channel_sessions (db s')) (im_channel_id msg)
                      (im_external_chat_id msg) (im_external_thread_id msg) = Some row
               \<and> cs_id row = ex_channel_session_id ex \<and> cs_message_count row = 0)
          \<and> (\<forall>env2 msg2 ex2 s2.
                im_channel_id msg2 = im_channel_id msg
                \<and> im_external_chat_id msg2 = im_external_chat_id msg
                \<and> im_external_thread_id msg2 = im_external_thread_id msg
                \<and> handle_inbound_message env2 s' msg2 = (Processed ex2, s2) \<longrightarrow>
                ex_is_new ex2 \<and> ec_session_id (ex_engine_call ex2) = None
                \<and> ex_channel_session_id ex2 = ex_channel_session_id ex)"
  proof
    assume h: "F = None \<and> ex_error_occurred ex"
    then have none: "cs_find_by_external (db_channel_sessions (db s)) (im_channel_id msg)
                           (im_external_chat_id msg) (im_external_thread_id msg) = None"
      unfolding F_def rows_def by simp
    note C1 = resolve_session_created [OF none, of "ie_resolve env" agent "im_external_sender_id msg"
          "im_sender_display_name msg", folded resolved_def, folded rows1_def]
    obtain newrow where f1: "cs_find_by_external rows1 (im_channel_id msg)
                           (im_external_chat_id msg) (im_external_thread_id msg) = Some newrow"
      and nid: "cs_id newrow = X" and ncount: "cs_message_count newrow = 0"
      using C1 unfolding X_def by auto
    have "map erase (db_channel_sessions (db s')) = map erase rows1"
      unfolding rows' using h E3 by (simp add: update_counters_error_erase)
    then have "map_option erase (cs_find_by_external (db_channel_sessions (db s')) (im_channel_id msg)
                      (im_external_chat_id msg) (im_external_thread_id msg))
                 = map_option erase (cs_find_by_external rows1 (im_channel_id msg)
                      (im_external_chat_id msg) (im_external_thread_id msg))"
      using cs_find_erase [of "db_channel_sessions (db s')"] cs_find_erase [of rows1] by simp
    then obtain row where f': "cs_find_by_external (db_channel_sessions (db s')) (im_channel_id msg)
                      (im_external_chat_id msg) (im_external_thread_id msg) = Some row"
      and e: "erase row = erase newrow"
      using f1 by auto
    have rid: "cs_id row = X"
      using arg_cong [OF e, of cs_id] nid by simp
    have rcount: "cs_message_count row = 0"
      using arg_cong [OF e, of cs_message_count] ncount by simp
    have first: "\<exists>row. cs_find_by_external (db_channel_sessions (db s')) (im_channel_id msg)
                      (im_external_chat_id msg) (im_external_thread_id msg) = Some row
               \<and> cs_id row = ex_channel_session_id ex \<and> cs_message_count row = 0"
      using f' rid rcount exX by simp
    have later: "\<forall>env2 msg2 ex2 s2.
                im_channel_id msg2 = im_channel_id msg
                \<and> im_external_chat_id msg2 = im_external_chat_id msg
                \<and> im_external_thread_id msg2 = im_external_thread_id msg
                \<and> handle_inbound_message env2 s' msg2 = (Processed ex2, s2) \<longrightarrow>
                ex_is_new ex2 \<and> ec_session_id (ex_engine_call ex2) = None
                \<and> ex_channel_session_id ex2 = ex_channel_session_id ex"
    proof (intro allI impI)
      fix env2 msg2 ex2 s2
      assume g: "im_channel_id msg2 = im_channel_id msg
                \<and> im_external_chat_id msg2 = im_external_chat_id msg
                \<and> im_external_thread_id msg2 = im_external_thread_id msg
                \<and> handle_inbound_message env2 s' msg2 = (Processed ex2, s2)"
      then obtain t1 channel2 agent2 where t1: "db t1 = db s'"
        and RE2: "run_exchange env2 t1 msg2 channel2 agent2 = (Processed ex2, s2)"
        using handle_processed [of env2 s' msg2 ex2 s2] by blast
      have f2: "cs_find_by_external (db_channel_sessions (db s')) (im_channel_id msg2)
                      (im_external_chat_id msg2) (im_external_thread_id msg2) = Some row"
        using f' g by simp
      have res2: "resolve_session (ie_resolve env2) (db s') (im_channel_id msg2) agent2
                       (im_external_chat_id msg2) (im_external_sender_id msg2)
                       (im_external_thread_id msg2) (im_sender_display_name msg2)
                   = ((cs_session_id row, cs_id row, cs_message_count row = 0), db s')"
        by (rule resolve_session_found [OF f2])
      note Q = run_exchange_processed [OF RE2, unfolded t1 res2]
      show "ex_is_new ex2 \<and> ec_session_id (ex_engine_call ex2) = None
                \<and> ex_channel_session_id ex2 = ex_channel_session_id ex"
        using Q(1,2,3) rid rcount exX by simp
    qed
    show "(\<exists>row. cs_find_by_external (db_channel_sessions (db s')) (im_channel_id msg)
                      (im_external_chat_id msg) (im_external_thread_id msg) = Some row
               \<and> cs_id row = ex_channel_session_id ex \<and> cs_message_count row = 0)
          \<and> (\<forall>env2 msg2 ex2 s2.
                im_channel_id msg2 = im_channel_id msg
                \<and> im_external_chat_id msg2 = im_external_chat_id msg
                \<and> im_external_thread_id msg2 = im_external_thread_id msg
                \<and> handle_inbound_message env2 s' msg2 = (Processed ex2, s2) \<longrightarrow>
                ex_is_new ex2 \<and> ec_session_id (ex_engine_call ex2) = None
                \<and> ex_channel_session_id ex2 = ex_channel_session_id ex)"
      using first later by blast
  qed
  show ?thesis
    using A B C unfolding F_def rows_def by blast
qed

theorem inbound_exchange_counters_witness:
  "fst (handle_inbound_message failing_env open_channel_system hi_message)
     = Processed
         \<lparr> ex_channel_session_id = ''cs-1'', ex_is_new = True,
           ex_engine_call =
             \<lparr> ec_agent_id = JStr ''a1'', ec_user_message = ''hi'', ec_session_id = None,
               ec_enable_skills = False, ec_enable_mcp = False,
               ec_channel_context =
                 [(''channel_type'', JStr []), (''channel_id'', JStr ''c1''),
                  (''chat_id'', JStr ''chat1''), (''reply_to_message_id'', JStr ''m1''),
                  (''app_id'', JStr []), (''app_secret'', JStr [])] \<rparr>,
           ex_reply_text = ''Sorry, I encountered an error processing your request.'',
           ex_error_occurred = True \<rparr>
   \<and> (\<exists>row. cs_get (db_channel_sessions
                     (db (snd (handle_inbound_message failing_env open_channel_system hi_message))))
               ''cs-1'' = Some row
          \<and> cs_last_message_at row = ''t-upd'' \<and> cs_message_count row = 0)
   \<and> (\<exists>ex2. fst (handle_inbound_message answering_env
                    (snd (handle_inbound_message failing_env open_channel_system hi_message))
                    hi_message) = Processed ex2
          \<and> ex_is_new ex2 \<and> ec_session_id (ex_engine_call ex2) = None
          \<and> ex_channel_session_id ex2 = ''cs-1'')"
proof -
  let ?ex = "\<lparr> ex_channel_session_id = ''cs-1'', ex_is_new = True,
           ex_engine_call =
             \<lparr> ec_agent_id = JStr ''a1'', ec_user_message = ''hi'', ec_session_id = None,
               ec_enable_skills = False, ec_enable_mcp = False,
               ec_channel_context =
                 [(''channel_type'', JStr []), (''channel_id'', JStr ''c1''),
                  (''chat_id'', JStr ''chat1''), (''reply_to_message_id'', JStr ''m1''),
                  (''app_id'', JStr []), (''app_secret'', JStr [])] \<rparr>,
           ex_reply_text = ''Sorry, I encountered an error processing your request.'',
           ex_error_occurred = True \<rparr>"
  let ?ex2 = "\<lparr> ex_channel_session_id = ''cs-1'', ex_is_new = True,
           ex_engine_call =
             \<lparr> ec_agent_id = JStr ''a1'', ec_user_message = ''hi'', ec_session_id = None,
               ec_enable_skills = False, ec_enable_mcp = False,
               ec_channel_context =
                 [(''channel_type'', JStr []), (''channel_id'', JStr ''c1''),
                  (''chat_id'', JStr ''chat1''), (''reply_to_message_id'', JStr ''m1''),
                  (''app_id'', JStr []), (''app_secret'', JStr [])] \<rparr>,
           ex_reply_text = ''hello'', ex_error_occurred = False \<rparr>"
  let ?s1 = "snd (handle_inbound_message failing_env open_channel_system hi_message)"
  let ?s2 = "snd (handle_inbound_message answering_env ?s1 hi_message)"
  have f1: "fst (handle_inbound_message failing_env open_channel_system hi_message) = Processed ?ex"
    by code_simp
  have f2: "fst (handle_inbound_message answering_env ?s1 hi_message) = Processed ?ex2"
    by code_simp
  have h1: "handle_inbound_message failing_env open_channel_system hi_message = (Processed ?ex, ?s1)"
    using f1 by (simp add: prod_eq_iff)
  have h2: "handle_inbound_message answering_env ?s1 hi_message = (Processed ?ex2, ?s2)"
    using f2 by (simp add: prod_eq_iff)
  note T = inbound_exchange_counters [OF h1]
  have none: "cs_find_by_external (db_channel_sessions (db open_channel_system)) (im_channel_id hi_message)
             (im_external_chat_id hi_message) (im_external_thread_id hi_message) = None"
    by (simp add: open_channel_system_def empty_database_def cs_find_by_external_def)
  have dist: "distinct (map cs_id (db_channel_sessions (db open_channel_system)))"
    by (simp add: open_channel_system_def empty_database_def)
  have upd: "ie_now_update failing_env = ''t-upd''"
    by (simp add: failing_env_def)
  obtain row where r: "cs_get (db_channel_sessions (db ?s1)) ''cs-1'' = Some row"
    and t: "cs_last_message_at row = ''t-upd''"
    using T [THEN conjunct1] upd by auto
  obtain row' where r': "cs_get (db_channel_sessions (db ?s1)) ''cs-1'' = Some row'"
    and c: "cs_message_count row' = 0"
    using T [THEN conjunct2, THEN conjunct1] dist none by auto
  have a: "\<exists>row. cs_get (db_channel_sessions (db ?s1)) ''cs-1'' = Some row
          \<and> cs_last_message_at row = ''t-upd'' \<and> cs_message_count row = 0"
    using r t r' c by auto
  obtain ex2 where e2: "handle_inbound_message answering_env ?s1 hi_message = (Processed ex2, ?s2)"
    using h2 by blast
  have errd: "ex_error_occurred ?ex" by simp
  have later: "\<forall>env2 msg2 ex2 s2.
                im_channel_id msg2 = im_channel_id hi_message
                \<and> im_external_chat_id msg2 = im_external_chat_id hi_message
                \<and> im_external_thread_id msg2 = im_external_thread_id hi_message
                \<and> handle_inbound_message env2 ?s1 msg2 = (Processed ex2, s2) \<longrightarrow>
                ex_is_new ex2 \<and> ec_session_id (ex_engine_call ex2) = None
                \<and> ex_channel_session_id ex2 = ex_channel_session_id ?ex"
    using T [THEN conjunct2, THEN conjunct2] none errd by blast
  have "ex_is_new ex2 \<and> ec_session_id (ex_engine_call ex2) = None
          \<and> ex_channel_session_id ex2 = ex_channel_session_id ?ex"
    using later e2 by blast
  moreover have "fst (handle_inbound_message answering_env ?s1 hi_message) = Processed ex2"
    using arg_cong [OF e2, of fst] by simp
  ultimately have b: "\<exists>ex2. fst (handle_inbound_message answering_env ?s1 hi_message) = Processed ex2
          \<and> ex_is_new ex2 \<and> ec_session_id (ex_engine_call ex2) = None
          \<and> ex_channel_session_id ex2 = ''cs-1''"
    by (intro exI [of _ ex2]) simp
  show ?thesis using f1 a b by blast
qed

section \<open>Task creation: properties\<close>

text \<open>
  Claim C10. When the store holds no agent record for \<open>agent_id\<close>, \<open>create_task\<close> raises
  \<open>ValueError\<close> and returns the task manager and the store exactly as they were: no task
  row, no running task, no event buffer, subscriber list or message queue is added for
  any task id.
\<close>

theorem create_task_unknown_agent:
  assumes "db_agents d agent_id = None"
  shows "create_task env (tm, d) agent_id message content enable_skills enable_mcp add_dirs
           = (Inl (ValueError (''Agent '' @ agent_id @ '' not found'')), (tm, d))"
  using assms by (simp add: create_task_def Let_def)

theorem create_task_unknown_agent_witness:
  "create_task \<lparr> ce_uuid_hex = ''0123456789abcdef'', ce_now = ''t0'', ce_py_str = (\<lambda>v. ''?''),
                 ce_new_queue = 0 \<rparr>
     (new_task_manager, empty_database) ''ghost'' (Some ''hello'') None False False None
   = (Inl (ValueError ''Agent ghost not found''), (new_task_manager, empty_database))"
proof -
  have h: "db_agents empty_database ''ghost'' = None"
    by (simp add: empty_database_def)
  show ?thesis
    using create_task_unknown_agent [OF h] by simp
qed

lemma create_task_known_agent_example:
  "fst (create_task \<lparr> ce_uuid_hex = ''0123456789abcdef'', ce_now = ''t0'', ce_py_str = (\<lambda>v. ''?''),
                 ce_new_queue = 0 \<rparr>
     (new_task_manager, empty_database\<lparr>db_agents := [''a1'' \<mapsto> [(''name'', JStr ''helper'')]]\<rparr>)
     ''a1'' (Some ''hello'') None False False None)
   = Inr \<lparr> tk_id = ''task_0123456789ab'', tk_agent_id = ''a1'', tk_session_id = None,
           tk_status = ''pending'', tk_title = JStr ''hello'', tk_model = JNull,
           tk_created_at = ''t0'', tk_started_at = None, tk_completed_at = None,
           tk_error = JNull, tk_work_dir = None \<rparr>"
  by (simp add: create_task_def task_title_of_def Let_def dget_none_def dget_def)

section \<open>Subscription: properties\<close>

lemma fold_queue_put:
  "fold (queue_put ev) qs h q = h q @ replicate (count_list qs q) ev"
  by (induction qs arbitrary: h) (auto simp: queue_put_def replicate_append_same)

lemma emit_event_subscribers [simp]: "subscribers (emit_event tm t ev) = subscribers tm"
  by (simp add: emit_event_def Let_def split: option.splits)

lemma emit_event_queue:
  "queues (emit_event tm t ev) q
     = queues tm q @ replicate (case subscribers tm t of None \<Rightarrow> 0 | Some qs \<Rightarrow> count_list qs q) ev"
  by (simp add: emit_event_def Let_def fold_queue_put split: option.splits)

lemma emit_event_registered:
  assumes "registered tm tid q"
  shows "registered (emit_event tm t ev) tid q"
    and "queues (emit_event tm t ev) q = queues tm q @ (if t = tid then [ev] else [])"
proof -
  show "registered (emit_event tm t ev) tid q"
    using assms by (simp add: registered_def)
  show "queues (emit_event tm t ev) q = queues tm q @ (if t = tid then [ev] else [])"
  proof (cases "t = tid")
    case True
    then show ?thesis using assms by (auto simp: emit_event_queue registered_def)
  next
    case False
    then have "(case subscribers tm t of None \<Rightarrow> 0 | Some qs \<Rightarrow> count_list qs q) = 0"
      using assms by (auto simp: registered_def split: option.splits)
    then show ?thesis using False by (simp add: emit_event_queue)
  qed
qed

lemma emit_event_unreferenced:
  "unreferenced tm q \<Longrightarrow> unreferenced (emit_event tm t ev) q"
  by (simp add: unreferenced_def)

lemma step_emit_inv:
  assumes "sub_inv tid q S L st"
  shows "sub_inv tid q S (L @ (if t = tid then [ev] else [])) (step st (Emit t ev))"
proof -
  obtain tm sub out where st: "st = (tm, sub, out)" by (cases st)
  show ?thesis
  proof (cases "sub_phase sub")
    case Created
    then show ?thesis using assms st by (simp add: sub_inv_def)
  next
    case (Replay es)
    then show ?thesis
      using assms st by (auto simp: sub_inv_def emit_event_registered)
  next
    case Waiting
    then show ?thesis
      using assms st by (auto simp: sub_inv_def emit_event_registered)
  next
    case (Yielded e)
    then show ?thesis
      using assms st by (auto simp: sub_inv_def emit_event_registered)
  next
    case Closed
    then show ?thesis
      using assms st by (auto simp: sub_inv_def emit_event_unreferenced)
  qed
qed

lemma register_other_registered:
  assumes "registered tm tid q" and "q' \<noteq> q"
  shows "registered (register tm t q') tid q" and "queues (register tm t q') q = queues tm q"
  using assms by (auto simp: registered_def register_def split: option.splits)

lemma register_other_unreferenced:
  assumes "unreferenced tm q" and "q' \<noteq> q"
  shows "unreferenced (register tm t q') q"
  using assms by (auto simp: unreferenced_def register_def split: option.splits if_splits)

lemma count_list_remove1_other: "q' \<noteq> q \<Longrightarrow> count_list (remove1 q' qs) q = count_list qs q"
  by (induction qs) auto

lemma unregister_other_registered:
  assumes "registered tm tid q" and "q' \<noteq> q"
  shows "registered (snd (unregister tm t q')) tid q"
    and "queues (snd (unregister tm t q')) q = queues tm q"
  using assms
  by (auto simp: registered_def unregister_def count_list_remove1_other
      split: option.splits if_splits dest: notin_set_remove1)

lemma unregister_other_unreferenced:
  assumes "unreferenced tm q"
  shows "unreferenced (snd (unregister tm t q')) q"
  using assms
  by (auto simp: unreferenced_def unregister_def split: option.splits if_splits dest: notin_set_remove1)

lemma step_foreign_inv:
  assumes "sub_inv tid q S L st" and "foreign q a" and "a \<noteq> Next" and "\<forall>t ev. a \<noteq> Emit t ev"
  shows "sub_inv tid q S L (step st a)"
proof -
  obtain tm sub out where st: "st = (tm, sub, out)" by (cases st)
  show ?thesis
  proof (cases a)
    case (Emit t ev)
    then show ?thesis using assms(4) by simp
  next
    case Next
    then show ?thesis using assms(3) by simp
  next
    case (Other_register t q')
    then show ?thesis
      using assms(1,2) st
      by (cases "sub_phase sub")
         (auto simp: sub_inv_def register_other_registered register_other_unreferenced)
  next
    case (Other_get q')
    then show ?thesis
      using assms(1,2) st
      by (cases "sub_phase sub") (auto simp: sub_inv_def registered_def unreferenced_def)
  next
    case (Other_unregister t q')
    then show ?thesis
      using assms(1,2) st
      by (cases "sub_phase sub")
         (auto simp: sub_inv_def unregister_other_registered unregister_other_unreferenced)
  qed
qed

lemma count_list_remove1_same: "count_list (remove1 q qs) q = count_list qs q - 1"
  by (induction qs) auto

lemma unregister_registered:
  assumes "registered tm tid q"
  shows "fst (unregister tm tid q) = None" and "unreferenced (snd (unregister tm tid q)) q"
proof -
  obtain qs where qs: "subscribers tm tid = Some qs" and c: "count_list qs q = 1"
    and others: "\<forall>t qs. t \<noteq> tid \<longrightarrow> subscribers tm t = Some qs \<longrightarrow> q \<notin> set qs"
    using assms by (auto simp: registered_def)
  have mem: "q \<in> set qs"
    using c count_list_0_iff [of qs q] by auto
  have z: "count_list (remove1 q qs) q = 0"
    using c by (simp add: count_list_remove1_same)
  have gone: "q \<notin> set (remove1 q qs)"
    by (rule count_list_0_iff [THEN iffD1, OF z])
  show "fst (unregister tm tid q) = None"
    using qs mem by (simp add: unregister_def)
  show "unreferenced (snd (unregister tm tid q)) q"
    using qs mem gone others by (auto simp: unregister_def unreferenced_def)
qed

lemma registered_queues_update [simp]:
  "registered (tm\<lparr>queues := h\<rparr>) tid q = registered tm tid q"
  by (simp add: registered_def)

lemma queue_get_inv:
  assumes "sub_task_id sub = tid" and "sub_queue sub = q" and "registered tm tid q"
    and "out = S @ ys" and "L = ys @ queues tm q" and "\<forall>x \<in> set ys. \<not> is_terminal x"
  shows "sub_inv tid q S L
           (case queue_get tm sub of
              (Item ev, tm', sub') \<Rightarrow> (tm', sub', out @ [ev])
            | (r, tm', sub') \<Rightarrow> (tm', sub', out))"
proof (cases "queues tm q")
  case Nil
  then show ?thesis
    using assms by (simp add: queue_get_def sub_inv_def)
next
  case (Cons ev rest)
  then show ?thesis
    using assms by (simp add: queue_get_def sub_inv_def)
qed

lemma step_next_inv:
  assumes "sub_inv tid q S L st"
  shows "sub_inv tid q S L (step st Next)"
proof -
  obtain tm sub out where st: "st = (tm, sub, out)" by (cases st)
  have ids: "sub_task_id sub = tid" "sub_queue sub = q"
    using assms st by (simp_all add: sub_inv_def)
  show ?thesis
  proof (cases "sub_phase sub")
    case Created
    then show ?thesis using assms st by (simp add: sub_inv_def)
  next
    case (Replay es)
    show ?thesis
    proof (cases es)
      case Nil
      have "sub_inv tid q S L
           (case queue_get tm sub of
              (Item ev, tm', sub') \<Rightarrow> (tm', sub', out @ [ev])
            | (r, tm', sub') \<Rightarrow> (tm', sub', out))"
        by (rule queue_get_inv [where ys = "[]"]) (use assms st Replay Nil ids in \<open>auto simp: sub_inv_def\<close>)
      then show ?thesis
        using st Replay Nil by (simp add: sub_next_def replay_def)
    next
      case (Cons e rest)
      then show ?thesis
        using assms st Replay by (auto simp: sub_inv_def sub_next_def replay_def)
    qed
  next
    case Waiting
    then obtain ys where ys: "out = S @ ys" "L = ys @ queues tm q" "\<forall>x \<in> set ys. \<not> is_terminal x"
      and reg: "registered tm tid q"
      using assms st by (auto simp: sub_inv_def)
    have "sub_inv tid q S L
           (case queue_get tm sub of
              (Item ev, tm', sub') \<Rightarrow> (tm', sub', out @ [ev])
            | (r, tm', sub') \<Rightarrow> (tm', sub', out))"
      by (rule queue_get_inv [OF ids reg ys])
    then show ?thesis
      using st Waiting by (simp add: sub_next_def)
  next
    case (Yielded e)
    then obtain ys where ys: "out = S @ ys @ [e]" "L = ys @ [e] @ queues tm q"
        "\<forall>x \<in> set ys. \<not> is_terminal x"
      and reg: "registered tm tid q"
      using assms st by (auto simp: sub_inv_def)
    show ?thesis
    proof (cases "is_terminal e")
      case True
      have u: "unregister tm tid q = (None, snd (unregister tm tid q))"
        using unregister_registered(1) [OF reg] by (simp add: prod_eq_iff)
      have "sub_next tm sub = (Stop, snd (unregister tm tid q), sub\<lparr>sub_phase := Closed\<rparr>)"
        using Yielded True ids by (simp add: sub_next_def finish_def, subst u, simp)
      then show ?thesis
        using st ys True ids unregister_registered(2) [OF reg]
        by (auto simp: sub_inv_def)
    next
      case False
      have "sub_inv tid q S L
           (case queue_get tm sub of
              (Item ev, tm', sub') \<Rightarrow> (tm', sub', out @ [ev])
            | (r, tm', sub') \<Rightarrow> (tm', sub', out))"
        by (rule queue_get_inv [OF ids reg, where ys = "ys @ [e]"]) (use ys False in auto)
      then show ?thesis
        using st Yielded False by (simp add: sub_next_def)
    qed
  next
    case Closed
    then show ?thesis
      using assms st by (simp add: sub_inv_def sub_next_def)
  qed
qed

lemma run_inv:
  assumes "sub_inv tid q S L st" and "\<forall>a \<in> set acts. foreign q a"
  shows "sub_inv tid q S (L @ emitted tid acts) (run st acts)"
  using assms
proof (induction acts arbitrary: st L)
  case Nil
  then show ?case by (simp add: run_def)
next
  case (Cons a acts)
  have rest: "\<forall>a \<in> set acts. foreign q a" using Cons.prems(2) by simp
  have r: "run st (a # acts) = run (step st a) acts" by (simp add: run_def)
  show ?case
  proof (cases a)
    case (Emit t ev)
    have "sub_inv tid q S (L @ (if t = tid then [ev] else [])) (step st a)"
      unfolding Emit by (rule step_emit_inv [OF Cons.prems(1)])
    then have "sub_inv tid q S ((L @ (if t = tid then [ev] else [])) @ emitted tid acts) (run (step st a) acts)"
      using rest by (rule Cons.IH)
    then show ?thesis unfolding r using Emit by (cases "t = tid") simp_all
  next
    case Next
    have "sub_inv tid q S L (step st a)"
      unfolding Next by (rule step_next_inv [OF Cons.prems(1)])
    then have "sub_inv tid q S (L @ emitted tid acts) (run (step st a) acts)"
      using rest by (rule Cons.IH)
    then show ?thesis unfolding r using Next by simp
  next
    case (Other_register t q')
    have "sub_inv tid q S L (step st a)"
      by (rule step_foreign_inv [OF Cons.prems(1)]) (use Cons.prems(2) Other_register in auto)
    then have "sub_inv tid q S (L @ emitted tid acts) (run (step st a) acts)"
      using rest by (rule Cons.IH)
    then show ?thesis unfolding r using Other_register by simp
  next
    case (Other_get q')
    have "sub_inv tid q S L (step st a)"
      by (rule step_foreign_inv [OF Cons.prems(1)]) (use Cons.prems(2) Other_get in auto)
    then have "sub_inv tid q S (L @ emitted tid acts) (run (step st a) acts)"
      using rest by (rule Cons.IH)
    then show ?thesis unfolding r using Other_get by simp
  next
    case (Other_unregister t q')
    have "sub_inv tid q S L (step st a)"
      by (rule step_foreign_inv [OF Cons.prems(1)]) (use Cons.prems(2) Other_unregister in auto)
    then have "sub_inv tid q S (L @ emitted tid acts) (run (step st a) acts)"
      using rest by (rule Cons.IH)
    then show ?thesis unfolding r using Other_unregister by simp
  qed
qed

lemma register_fresh_registered:
  assumes "unreferenced tm q"
  shows "registered (register tm tid q) tid q" and "queues (register tm tid q) q = []"
    and "event_buffers (register tm tid q) = event_buffers tm"
  using assms
  by (auto simp: registered_def register_def unreferenced_def split: option.splits)

lemma start_inv:
  assumes "unreferenced tm q"
  shows "sub_inv tid q (case event_buffers tm tid of None \<Rightarrow> [] | Some b \<Rightarrow> b) []
           (step (tm, \<lparr>sub_task_id = tid, sub_queue = q, sub_phase = Created\<rparr>, []) Next)"
proof -
  let ?S = "case event_buffers tm tid of None \<Rightarrow> [] | Some b \<Rightarrow> b"
  note R = register_fresh_registered [OF assms, of tid]
  show ?thesis
  proof (cases ?S)
    case Nil
    then show ?thesis
      using R by (simp add: sub_next_def replay_def queue_get_def sub_inv_def Let_def)
  next
    case (Cons e rest)
    then show ?thesis
      using R by (simp add: sub_next_def replay_def sub_inv_def Let_def)
  qed
qed

lemma upto_terminal_append:
  "\<forall>x \<in> set ys. \<not> is_terminal x \<Longrightarrow> upto_terminal (ys @ zs) = ys @ upto_terminal zs"
  by (induction ys) auto

lemma inv_prefix:
  assumes "sub_inv tid q S L st"
  shows "prefix (snd (snd st)) (S @ upto_terminal L)"
proof -
  obtain tm sub out where st: "st = (tm, sub, out)" by (cases st)
  show ?thesis
  proof (cases "sub_phase sub")
    case Created
    then show ?thesis using assms st by (simp add: sub_inv_def)
  next
    case (Replay es)
    then have "out @ es = S" using assms st by (simp add: sub_inv_def)
    then show ?thesis using st by (auto simp: prefix_def)
  next
    case Waiting
    then obtain ys where "out = S @ ys" "L = ys @ queues tm q" "\<forall>x \<in> set ys. \<not> is_terminal x"
      using assms st by (auto simp: sub_inv_def)
    then show ?thesis using st by (simp add: upto_terminal_append)
  next
    case (Yielded e)
    then obtain ys where "out = S @ ys @ [e]" "L = ys @ [e] @ queues tm q"
        "\<forall>x \<in> set ys. \<not> is_terminal x"
      using assms st by (auto simp: sub_inv_def)
    then show ?thesis using st by (simp add: upto_terminal_append)
  next
    case Closed
    then obtain ys e rest where "out = S @ ys @ [e]" "L = ys @ e # rest" "is_terminal e"
        "\<forall>x \<in> set ys. \<not> is_terminal x"
      using assms st by (auto simp: sub_inv_def)
    then show ?thesis using st by (simp add: upto_terminal_append)
  qed
qed

lemma backlog_Nil [simp]: "backlog [] = 0"
  by (simp add: backlog_def)

lemma backlog_Cons: "backlog (e # r) = (if is_terminal e then 2 else Suc (backlog r))"
  by (simp add: backlog_def)

lemma backlog_le: "backlog es \<le> Suc (length es)"
  by (induction es) (auto simp: backlog_Cons)

lemma queue_get_steps:
  "steps_left (case queue_get tm sub of
              (Item ev, tm', sub') \<Rightarrow> (tm', sub', out @ [ev])
            | (r, tm', sub') \<Rightarrow> (tm', sub', out))
     = backlog (queues tm (sub_queue sub)) - 1"
  by (cases "queues tm (sub_queue sub)") (auto simp: queue_get_def steps_left_def backlog_Cons)

lemma steps_left_next:
  assumes "sub_phase sub \<noteq> Created"
  shows "steps_left (step (tm, sub, out) Next) \<le> steps_left (tm, sub, out) - 1"
proof (cases "sub_phase sub")
  case Created
  then show ?thesis using assms by simp
next
  case (Replay es)
  show ?thesis
  proof (cases es)
    case Nil
    then show ?thesis
      using Replay queue_get_steps [where tm = tm and sub = sub and out = out]
      by (simp add: sub_next_def replay_def) (simp add: steps_left_def)
  next
    case (Cons e rest)
    then show ?thesis
      using Replay by (simp add: sub_next_def replay_def steps_left_def)
  qed
next
  case Waiting
  then show ?thesis
    using queue_get_steps [where tm = tm and sub = sub and out = out]
    by (simp add: sub_next_def) (simp add: steps_left_def)
next
  case (Yielded e)
  show ?thesis
  proof (cases "is_terminal e")
    case True
    then show ?thesis
      using Yielded
      by (simp add: sub_next_def finish_def steps_left_def split: prod.splits option.splits)
  next
    case False
    then show ?thesis
      using Yielded queue_get_steps [where tm = tm and sub = sub and out = out]
      by (simp add: sub_next_def) (simp add: steps_left_def)
  qed
next
  case Closed
  then show ?thesis by (simp add: sub_next_def steps_left_def)
qed

lemma inv_not_created: "sub_inv tid q S L (tm, sub, out) \<Longrightarrow> sub_phase sub \<noteq> Created"
  by (auto simp: sub_inv_def)

lemma drain_inv:
  assumes "sub_inv tid q S L st"
  shows "sub_inv tid q S L (run st (replicate n Next))
       \<and> steps_left (run st (replicate n Next)) \<le> steps_left st - n"
  using assms
proof (induction n arbitrary: st)
  case 0
  then show ?case by (simp add: run_def)
next
  case (Suc n)
  obtain tm sub out where st: "st = (tm, sub, out)" by (cases st)
  have i: "sub_inv tid q S L (step st Next)"
    by (rule step_next_inv [OF Suc.prems])
  have d: "steps_left (step st Next) \<le> steps_left st - 1"
    unfolding st by (rule steps_left_next [OF inv_not_created]) (use Suc.prems st in simp)
  have r: "run st (replicate (Suc n) Next) = run (step st Next) (replicate n Next)"
    by (simp add: run_def)
  show ?case
    unfolding r using Suc.IH [OF i] d by (simp, arith)
qed

lemma inv_steps_bound:
  assumes "sub_inv tid q S L st"
  shows "steps_left st \<le> Suc (length S + length L)"
proof -
  obtain tm sub out where st: "st = (tm, sub, out)" by (cases st)
  have q: "sub_queue sub = q" using assms st by (simp add: sub_inv_def)
  show ?thesis
  proof (cases "sub_phase sub")
    case Created
    then show ?thesis using st by (simp add: steps_left_def)
  next
    case (Replay es)
    then have "out @ es = S" "queues tm q = L" using assms st by (simp_all add: sub_inv_def)
    then show ?thesis
      using st Replay q backlog_le [of L] by (auto simp: steps_left_def)
  next
    case Waiting
    then obtain ys where "L = ys @ queues tm q" using assms st by (auto simp: sub_inv_def)
    then have "length (queues tm q) \<le> length L" by simp
    then show ?thesis
      using st Waiting q backlog_le [of "queues tm q"] by (simp add: steps_left_def)
  next
    case (Yielded e)
    then obtain ys where "L = ys @ [e] @ queues tm q" using assms st by (auto simp: sub_inv_def)
    then have "length (queues tm q) \<le> length L" by simp
    then show ?thesis
      using st Yielded q backlog_le [of "queues tm q"] by (simp add: steps_left_def)
  next
    case Closed
    then show ?thesis using st by (simp add: steps_left_def)
  qed
qed

lemma backlog_0: "backlog es = 0 \<Longrightarrow> es = []"
  by (cases es) (auto simp: backlog_Cons split: if_splits)

lemma upto_terminal_id: "\<forall>x \<in> set ys. \<not> is_terminal x \<Longrightarrow> upto_terminal ys = ys"
  by (induction ys) auto

lemma inv_drained:
  assumes "sub_inv tid q S L st" and "steps_left st = 0"
  shows "snd (snd st) = S @ upto_terminal L
       \<and> ((\<exists>e \<in> set L. is_terminal e) \<longrightarrow>
            sub_phase (fst (snd st)) = Closed \<and> unreferenced (fst st) q)"
proof -
  obtain tm sub out where st: "st = (tm, sub, out)" by (cases st)
  have q: "sub_queue sub = q" using assms st by (simp add: sub_inv_def)
  show ?thesis
  proof (cases "sub_phase sub")
    case Created
    then show ?thesis using assms st by (simp add: sub_inv_def)
  next
    case (Replay es)
    then have "es = []" "queues tm q = []"
      using assms(2) st q by (auto simp: steps_left_def dest: backlog_0)
    then show ?thesis
      using assms(1) st Replay by (auto simp: sub_inv_def)
  next
    case Waiting
    then have e: "queues tm q = []"
      using assms(2) st q by (auto simp: steps_left_def dest: backlog_0)
    obtain ys where "out = S @ ys" "L = ys @ queues tm q" "\<forall>x \<in> set ys. \<not> is_terminal x"
      using assms(1) st Waiting by (auto simp: sub_inv_def)
    then show ?thesis
      using st e by (auto simp: upto_terminal_id)
  next
    case (Yielded ev)
    then have nt: "\<not> is_terminal ev" and e: "queues tm q = []"
      using assms(2) st q by (auto simp: steps_left_def split: if_splits dest: backlog_0)
    obtain ys where "out = S @ ys @ [ev]" "L = ys @ [ev] @ queues tm q"
        "\<forall>x \<in> set ys. \<not> is_terminal x"
      using assms(1) st Yielded by (auto simp: sub_inv_def)
    then show ?thesis
      using st e nt by (auto simp: upto_terminal_append)
  next
    case Closed
    then obtain ys ev rest where "out = S @ ys @ [ev]" "L = ys @ ev # rest" "is_terminal ev"
        "\<forall>x \<in> set ys. \<not> is_terminal x" and u: "unreferenced tm q"
      using assms(1) st by (auto simp: sub_inv_def)
    then show ?thesis
      using st Closed by (simp add: upto_terminal_append)
  qed
qed

lemma sub_close_inv:
  assumes "sub_inv tid q S L (tm, sub, out)"
  shows "sub_phase (snd (sub_close tm sub)) = Closed \<and> unreferenced (fst (sub_close tm sub)) q"
proof -
  have ids: "sub_task_id sub = tid" "sub_queue sub = q"
    using assms by (simp_all add: sub_inv_def)
  show ?thesis
  proof (cases "sub_phase sub")
    case Created
    then show ?thesis using assms by (simp add: sub_inv_def)
  next
    case (Replay es)
    then have "registered tm tid q" using assms by (simp add: sub_inv_def)
    then show ?thesis
      using Replay ids unregister_registered(2) by (simp add: sub_close_def)
  next
    case Waiting
    then have "registered tm tid q" using assms by (simp add: sub_inv_def)
    then show ?thesis
      using Waiting ids unregister_registered(2) by (simp add: sub_close_def)
  next
    case (Yielded e)
    then have "registered tm tid q" using assms by (simp add: sub_inv_def)
    then show ?thesis
      using Yielded ids unregister_registered(2) by (simp add: sub_close_def)
  next
    case Closed
    then show ?thesis using assms by (simp add: sub_inv_def sub_close_def)
  qed
qed

lemma run_append: "run st (xs @ ys) = run (run st xs) ys"
  by (simp add: run_def)

lemma emitted_replicate_next [simp]: "emitted tid (replicate n Next) = []"
  by (induction n) auto

lemma delivery:
  fixes tid :: string and tm :: task_manager and q :: qref
  assumes "unreferenced tm q" and "\<forall>a \<in> set acts. foreign q a"
  defines "S \<equiv> (case event_buffers tm tid of None \<Rightarrow> [] | Some b \<Rightarrow> b)"
    and "st0 \<equiv> (tm, \<lparr>sub_task_id = tid, sub_queue = q, sub_phase = Created\<rparr>, [] :: event list)"
  shows "sub_inv tid q S (emitted tid acts) (run st0 (Next # acts))"
    and "length S + length (emitted tid acts) < n \<Longrightarrow>
           snd (snd (run st0 (Next # acts @ replicate n Next))) = S @ upto_terminal (emitted tid acts)
         \<and> ((\<exists>e \<in> set (emitted tid acts). is_terminal e) \<longrightarrow>
              sub_phase (fst (snd (run st0 (Next # acts @ replicate n Next)))) = Closed
              \<and> unreferenced (fst (run st0 (Next # acts @ replicate n Next))) q)"
proof -
  have i0: "sub_inv tid q S [] (step st0 Next)"
    unfolding S_def st0_def by (rule start_inv [OF assms(1)])
  have r: "run st0 (Next # acts) = run (step st0 Next) acts"
    by (simp add: run_def)
  show i: "sub_inv tid q S (emitted tid acts) (run st0 (Next # acts))"
    unfolding r using run_inv [OF i0 assms(2)] by simp
  assume n: "length S + length (emitted tid acts) < n"
  let ?st = "run st0 (Next # acts)"
  have r2: "run st0 (Next # acts @ replicate n Next) = run ?st (replicate n Next)"
    using run_append [of st0 "Next # acts" "replicate n Next"] by simp
  note D = drain_inv [OF i, of n]
  have "steps_left ?st \<le> Suc (length S + length (emitted tid acts))"
    by (rule inv_steps_bound [OF i])
  then have z: "steps_left (run ?st (replicate n Next)) = 0"
    using D n by simp
  show "snd (snd (run st0 (Next # acts @ replicate n Next))) = S @ upto_terminal (emitted tid acts)
         \<and> ((\<exists>e \<in> set (emitted tid acts). is_terminal e) \<longrightarrow>
              sub_phase (fst (snd (run st0 (Next # acts @ replicate n Next)))) = Closed
              \<and> unreferenced (fst (run st0 (Next # acts @ replicate n Next))) q)"
    unfolding r2 by (rule inv_drained [OF D [THEN conjunct1] z])
qed

text \<open>
  Claim C1, amended. A subscription to task \<open>tid\<close> starts with a queue object no
  subscriber list refers to; \<open>S\<close> is the task's event buffer at that moment (by C6 the
  most recent 100 events emitted before). For every schedule of later emissions,
  resumptions of the subscription and actions of other subscriptions: the events
  yielded so far are a prefix of \<open>S\<close> followed by the events emitted for the task since
  the start, up to and including the first terminal one; once the consumer has resumed
  the subscription often enough, exactly that sequence has been yielded, and if it
  contains a terminal event the generator has finished and its queue is in no
  subscriber list; and closing the subscription at any moment removes its queue from
  the subscriber lists.
\<close>

theorem subscribe_buffer_then_live:
  assumes "unreferenced tm q" and "\<forall>a \<in> set acts. foreign q a"
  shows "prefix
           (snd (snd (run (tm, \<lparr>sub_task_id = tid, sub_queue = q, sub_phase = Created\<rparr>, []) (Next # acts))))
           ((case event_buffers tm tid of None \<Rightarrow> [] | Some b \<Rightarrow> b) @ upto_terminal (emitted tid acts))
       \<and> (\<forall>n. length (case event_buffers tm tid of None \<Rightarrow> [] | Some b \<Rightarrow> b)
                 + length (emitted tid acts) < n \<longrightarrow>
            snd (snd (run (tm, \<lparr>sub_task_id = tid, sub_queue = q, sub_phase = Created\<rparr>, [])
                        (Next # acts @ replicate n Next)))
              = (case event_buffers tm tid of None \<Rightarrow> [] | Some b \<Rightarrow> b) @ upto_terminal (emitted tid acts)
            \<and> ((\<exists>e \<in> set (emitted tid acts). is_terminal e) \<longrightarrow>
                 sub_phase (fst (snd (run (tm, \<lparr>sub_task_id = tid, sub_queue = q, sub_phase = Created\<rparr>, [])
                                        (Next # acts @ replicate n Next)))) = Closed
                 \<and> unreferenced
                      (fst (run (tm, \<lparr>sub_task_id = tid, sub_queue = q, sub_phase = Created\<rparr>, [])
                              (Next # acts @ replicate n Next))) q))
       \<and> sub_phase
           (snd (sub_close
                   (fst (run (tm, \<lparr>sub_task_id = tid, sub_queue = q, sub_phase = Created\<rparr>, []) (Next # acts)))
                   (fst (snd (run (tm, \<lparr>sub_task_id = tid, sub_queue = q, sub_phase = Created\<rparr>, []) (Next # acts))))))
           = Closed
       \<and> unreferenced
           (fst (sub_close
                   (fst (run (tm, \<lparr>sub_task_id = tid, sub_queue = q, sub_phase = Created\<rparr>, []) (Next # acts)))
                   (fst (snd (run (tm, \<lparr>sub_task_id = tid, sub_queue = q, sub_phase = Created\<rparr>, []) (Next # acts))))))
           q"
proof -
  let ?init = "(tm, \<lparr>sub_task_id = tid, sub_queue = q, sub_phase = Created\<rparr>, [])"
  let ?S = "case event_buffers tm tid of None \<Rightarrow> [] | Some b \<Rightarrow> b"
  let ?cur = "run ?init (Next # acts)"
  have i: "sub_inv tid q ?S (emitted tid acts) ?cur"
    by (rule delivery(1) [OF assms])
  have a: "prefix (snd (snd ?cur)) (?S @ upto_terminal (emitted tid acts))"
    by (rule inv_prefix [OF i])
  have b: "\<forall>n. length ?S + length (emitted tid acts) < n \<longrightarrow>
            snd (snd (run ?init (Next # acts @ replicate n Next))) = ?S @ upto_terminal (emitted tid acts)
            \<and> ((\<exists>e \<in> set (emitted tid acts). is_terminal e) \<longrightarrow>
                 sub_phase (fst (snd (run ?init (Next # acts @ replicate n Next)))) = Closed
                 \<and> unreferenced (fst (run ?init (Next # acts @ replicate n Next))) q)"
    using delivery(2) [OF assms] by blast
  have "sub_inv tid q ?S (emitted tid acts) (fst ?cur, fst (snd ?cur), snd (snd ?cur))"
    using i by simp
  then have c: "sub_phase (snd (sub_close (fst ?cur) (fst (snd ?cur)))) = Closed
        \<and> unreferenced (fst (sub_close (fst ?cur) (fst (snd ?cur)))) q"
    by (rule sub_close_inv)
  show ?thesis using a b c by blast
qed

lemma emit_events_subscribers: "subscribers (emit_events tm evs) = subscribers tm"
  unfolding emit_events_def by (induction evs arbitrary: tm) (auto simp: split_beta)

lemma is_terminal_result: "is_terminal result_event"
  by (simp add: is_terminal_def result_event_def dget_none_def dget_def)

text \<open>
  Claim C1, as stated, fails: after 101 events, a subscription that starts before the
  terminal event is drained completely and yields the events numbered 1 to 100 and the
  terminal event; the first event emitted for the task is never yielded.
\<close>

theorem subscribe_misses_evicted_counterexample:
  "snd (snd (run (emit_events created_task (map (\<lambda>i. (''t1'', seq_event i)) [0..<101]),
                  \<lparr>sub_task_id = ''t1'', sub_queue = 0, sub_phase = Created\<rparr>, [])
               (Next # [Emit ''t1'' result_event] @ replicate 102 Next)))
     = map seq_event [1..<101] @ [result_event]
   \<and> seq_event 0 \<notin> set (map seq_event [1..<101] @ [result_event])"
proof -
  let ?evs = "map (\<lambda>i. (''t1'', seq_event i)) [0..<101]"
  let ?tm = "emit_events created_task ?evs"
  have b0: "event_buffers created_task ''t1'' = Some []"
    by (simp add: created_task_def new_task_manager_def)
  have ef: "events_for ''t1'' ?evs = map seq_event [0..<101]"
    by (simp add: events_for_def filter_map o_def del: upt_Suc)
  have "event_buffers ?tm ''t1'' = Some (last_n max_buffer_size ([] @ events_for ''t1'' ?evs))"
    by (rule emit_events_buffer [OF b0]) simp
  then have buf: "event_buffers ?tm ''t1'' = Some (map seq_event [1..<101])"
    unfolding ef by (simp add: last_n_def max_buffer_size_def drop_map del: upt_Suc)
  have "subscribers ?tm = [''t1'' \<mapsto> []]"
    by (simp add: emit_events_subscribers created_task_def new_task_manager_def)
  then have u: "unreferenced ?tm 0"
    by (simp add: unreferenced_def)
  have f: "\<forall>a \<in> set [Emit ''t1'' result_event]. foreign 0 a"
    by simp
  have n: "length (case event_buffers ?tm ''t1'' of None \<Rightarrow> [] | Some b \<Rightarrow> b)
             + length (emitted ''t1'' [Emit ''t1'' result_event]) < 102"
    unfolding buf by simp
  have "snd (snd (run (?tm, \<lparr>sub_task_id = ''t1'', sub_queue = 0, sub_phase = Created\<rparr>, [])
               (Next # [Emit ''t1'' result_event] @ replicate 102 Next)))
          = (case event_buffers ?tm ''t1'' of None \<Rightarrow> [] | Some b \<Rightarrow> b)
              @ upto_terminal (emitted ''t1'' [Emit ''t1'' result_event])"
    using delivery(2) [OF u f n] by blast
  then have a: "snd (snd (run (?tm, \<lparr>sub_task_id = ''t1'', sub_queue = 0, sub_phase = Created\<rparr>, [])
               (Next # [Emit ''t1'' result_event] @ replicate 102 Next)))
          = map seq_event [1..<101] @ [result_event]"
    unfolding buf using is_terminal_result by simp
  have b: "seq_event 0 \<notin> set (map seq_event [1..<101] @ [result_event])"
    by (auto simp: seq_event_def result_event_def)
  show ?thesis using a b by blast
qed

theorem subscribe_buffer_then_live_witness:
  "snd (snd (run (created_task\<lparr>event_buffers := [''t1'' \<mapsto> [seq_event 1, seq_event 2]]\<rparr>,
                  \<lparr>sub_task_id = ''t1'', sub_queue = 0, sub_phase = Created\<rparr>, [])
               (Next # [Emit ''t1'' (seq_event 3), Next, Other_register ''t1'' 7,
                        Emit ''t2'' (seq_event 9), Emit ''t1'' result_event, Other_get 7]
                  @ replicate 5 Next)))
     = [seq_event 1, seq_event 2, seq_event 3, result_event]
   \<and> sub_phase (fst (snd (run (created_task\<lparr>event_buffers := [''t1'' \<mapsto> [seq_event 1, seq_event 2]]\<rparr>,
                  \<lparr>sub_task_id = ''t1'', sub_queue = 0, sub_phase = Created\<rparr>, [])
               (Next # [Emit ''t1'' (seq_event 3), Next, Other_register ''t1'' 7,
                        Emit ''t2'' (seq_event 9), Emit ''t1'' result_event, Other_get 7]
                  @ replicate 5 Next)))) = Closed
   \<and> unreferenced (fst (run (created_task\<lparr>event_buffers := [''t1'' \<mapsto> [seq_event 1, seq_event 2]]\<rparr>,
                  \<lparr>sub_task_id = ''t1'', sub_queue = 0, sub_phase = Created\<rparr>, [])
               (Next # [Emit ''t1'' (seq_event 3), Next, Other_register ''t1'' 7,
                        Emit ''t2'' (seq_event 9), Emit ''t1'' result_event, Other_get 7]
                  @ replicate 5 Next))) 0"
proof -
  let ?tm = "created_task\<lparr>event_buffers := [''t1'' \<mapsto> [seq_event 1, seq_event 2]]\<rparr>"
  let ?acts = "[Emit ''t1'' (seq_event 3), Next, Other_register ''t1'' 7,
                Emit ''t2'' (seq_event 9), Emit ''t1'' result_event, Other_get 7]"
  have u: "unreferenced ?tm 0"
    by (simp add: unreferenced_def created_task_def new_task_manager_def)
  have f: "\<forall>a \<in> set ?acts. foreign 0 a"
    by simp
  have nt: "\<not> is_terminal (seq_event 3)"
    by (simp add: is_terminal_def seq_event_def dget_none_def dget_def)
  have em: "emitted ''t1'' ?acts = [seq_event 3, result_event]"
    by simp
  have S: "(case event_buffers ?tm ''t1'' of None \<Rightarrow> [] | Some b \<Rightarrow> b) = [seq_event 1, seq_event 2]"
    by simp
  have n: "length (case event_buffers ?tm ''t1'' of None \<Rightarrow> [] | Some b \<Rightarrow> b)
             + length (emitted ''t1'' ?acts) < 5"
    unfolding S em by simp
  have t: "\<exists>e \<in> set (emitted ''t1'' ?acts). is_terminal e"
    unfolding em using is_terminal_result by simp
  note T = subscribe_buffer_then_live [OF u f, of "''t1''", THEN conjunct2, THEN conjunct1, rule_format, OF n]
  have up: "upto_terminal [seq_event 3, result_event] = [seq_event 3, result_event]"
    using nt is_terminal_result by simp
  let ?fin = "run (?tm, \<lparr>sub_task_id = ''t1'', sub_queue = 0, sub_phase = Created\<rparr>, [])
               (Next # ?acts @ replicate 5 Next)"
  have o: "snd (snd ?fin) = [seq_event 1, seq_event 2, seq_event 3, result_event]"
    using T [THEN conjunct1] unfolding S em up by simp
  have c: "sub_phase (fst (snd ?fin)) = Closed \<and> unreferenced (fst ?fin) 0"
    using T [THEN conjunct2] t by blast
  show ?thesis
    using o c by blast
qed

end
